theory Spec2Isabelle
  imports Complex_Main "HOL-Library.Sublist" "HOL-Library.Multiset"
begin

section \<open>JavaScript numbers\<close>

text \<open>
  A JavaScript number is an IEEE 754 double: a finite value (a real that the format
  represents; \<open>Finite 0\<close> is \<open>+0\<close>), \<open>-0\<close>, an infinity or NaN. The arithmetic
  operations compute the exact real result and round it to the nearest double, ties to
  the even significand.
\<close>

datatype double = Finite real | NegZero | PosInf | NegInf | NaN

definition val :: "double \<Rightarrow> real" where
  "val d = (case d of Finite x \<Rightarrow> x | _ \<Rightarrow> 0)"

text \<open>The sign bit.\<close>

definition negative :: "double \<Rightarrow> bool" where
  "negative d = (case d of Finite x \<Rightarrow> x < 0 | NegZero \<Rightarrow> True | NegInf \<Rightarrow> True | _ \<Rightarrow> False)"

definition isFinite :: "double \<Rightarrow> bool" where
  "isFinite d = (case d of Finite x \<Rightarrow> True | NegZero \<Rightarrow> True | _ \<Rightarrow> False)"

definition isZero :: "double \<Rightarrow> bool" where
  "isZero d = (d = Finite 0 \<or> d = NegZero)"

definition infinity :: "bool \<Rightarrow> double" where
  "infinity neg = (if neg then NegInf else PosInf)"

definition zero :: "bool \<Rightarrow> double" where
  "zero neg = (if neg then NegZero else Finite 0)"

text \<open>Powers of two with an integer exponent.\<close>

definition p2 :: "int \<Rightarrow> real" where
  "p2 k = (if 0 \<le> k then 2 ^ nat k else 1 / 2 ^ nat (- k))"

text \<open>
  The binary exponent of a real, and the distance between neighbouring doubles at it:
  52 fraction bits, least exponent \<open>-1022\<close>, subnormals below.
\<close>

definition expo :: "real \<Rightarrow> int" where
  "expo x = \<lfloor>log 2 \<bar>x\<bar>\<rfloor>"

definition ulp :: "real \<Rightarrow> real" where
  "ulp x = p2 (max (expo x) (- 1022) - 52)"

text \<open>Rounding to the nearest integer, ties to the even one.\<close>

definition roundEven :: "real \<Rightarrow> int" where
  "roundEven q =
     (let f = \<lfloor>q\<rfloor> in
      if q - of_int f < 1 / 2 then f
      else if 1 / 2 < q - of_int f then f + 1
      else if even f then f else f + 1)"

text \<open>
  Rounding a real to a double. A result of magnitude \<open>2^1024\<close> or more overflows to an
  infinity. The flag is the sign of a zero result when the exact result is zero.
\<close>

definition rnd :: "bool \<Rightarrow> real \<Rightarrow> double" where
  "rnd neg x =
     (let r = ulp x * of_int (roundEven (x / ulp x)) in
      if p2 1024 \<le> \<bar>r\<bar> then infinity (r < 0)
      else if r = 0 then zero (if x = 0 then neg else x < 0)
      else Finite r)"

text \<open>Unary minus, \<open>+\<close>, \<open>-\<close>, \<open>*\<close>, \<open>/\<close> and \<open>Math.sqrt\<close>.\<close>

definition dneg :: "double \<Rightarrow> double" where
  "dneg d =
     (case d of
        Finite x \<Rightarrow> if x = 0 then NegZero else Finite (- x)
      | NegZero \<Rightarrow> Finite 0
      | PosInf \<Rightarrow> NegInf
      | NegInf \<Rightarrow> PosInf
      | NaN \<Rightarrow> NaN)"

definition dadd :: "double \<Rightarrow> double \<Rightarrow> double" where
  "dadd a b =
     (if a = NaN \<or> b = NaN then NaN
      else if \<not> isFinite a then (if \<not> isFinite b \<and> a \<noteq> b then NaN else a)
      else if \<not> isFinite b then b
      else rnd (negative a \<and> negative b) (val a + val b))"

definition dsub :: "double \<Rightarrow> double \<Rightarrow> double" where
  "dsub a b = dadd a (dneg b)"

definition dmul :: "double \<Rightarrow> double \<Rightarrow> double" where
  "dmul a b =
     (if a = NaN \<or> b = NaN then NaN
      else if (\<not> isFinite a \<and> isZero b) \<or> (isZero a \<and> \<not> isFinite b) then NaN
      else if \<not> isFinite a \<or> \<not> isFinite b then infinity (negative a \<noteq> negative b)
      else rnd (negative a \<noteq> negative b) (val a * val b))"

definition ddiv :: "double \<Rightarrow> double \<Rightarrow> double" where
  "ddiv a b =
     (if a = NaN \<or> b = NaN then NaN
      else if (\<not> isFinite a \<and> \<not> isFinite b) \<or> (isZero a \<and> isZero b) then NaN
      else if \<not> isFinite a then infinity (negative a \<noteq> negative b)
      else if \<not> isFinite b then zero (negative a \<noteq> negative b)
      else if isZero b then infinity (negative a \<noteq> negative b)
      else rnd (negative a \<noteq> negative b) (val a / val b))"

definition dsqrt :: "double \<Rightarrow> double" where
  "dsqrt d =
     (case d of
        Finite x \<Rightarrow> if x < 0 then NaN else rnd False (sqrt x)
      | NegZero \<Rightarrow> NegZero
      | PosInf \<Rightarrow> PosInf
      | NegInf \<Rightarrow> NaN
      | NaN \<Rightarrow> NaN)"

text \<open>
  The comparisons \<open><\<close>, \<open>===\<close> and \<open>>=\<close>: false when an operand is NaN, the two zeros
  equal.
\<close>

definition rank :: "double \<Rightarrow> int" where
  "rank d = (case d of PosInf \<Rightarrow> 1 | NegInf \<Rightarrow> - 1 | _ \<Rightarrow> 0)"

definition dlt :: "double \<Rightarrow> double \<Rightarrow> bool" where
  "dlt a b = (a \<noteq> NaN \<and> b \<noteq> NaN \<and> (rank a < rank b \<or> (rank a = rank b \<and> val a < val b)))"

definition deq :: "double \<Rightarrow> double \<Rightarrow> bool" where
  "deq a b = (a \<noteq> NaN \<and> b \<noteq> NaN \<and> rank a = rank b \<and> val a = val b)"

definition dge :: "double \<Rightarrow> double \<Rightarrow> bool" where
  "dge a b = (dlt b a \<or> deq a b)"

text \<open>A decimal literal of the source denotes the double nearest to it.\<close>

definition lit :: "real \<Rightarrow> double" where
  "lit q = rnd False q"

text \<open>The grid of the format: every double is a multiple of \<open>2^-1074\<close>.\<close>

definition gridded :: "double \<Rightarrow> bool" where
  "gridded d = (\<exists>j. val d = of_int j * p2 (- 1074))"

section \<open>Data model of \<open>src/client/puzzle.ts\<close>\<close>

text \<open>
  Strings are lists of characters, arrays are lists. An array of embeddings may be
  sparse: \<open>None\<close> is a hole, an index that holds no element, which reads as
  \<open>undefined\<close> and which \<open>Array.prototype.map\<close> passes over. In the vocabulary the
  code only tests a word for truthiness before it uses it, so a missing word is the
  empty string. A thrown \<open>Error\<close> is the left summand of a result.
\<close>

datatype error = Error string

record PuzzleData =
  hint_vocabulary :: "string list"
  hint_embeddings :: "double list option list"

record GameState =
  targetWord :: string
  targetEmbedding :: "double list"
  guessesHistory :: "string list"
  usedHints :: "string list"
  solved :: "bool option"

text \<open>Reading \<open>xs[i]\<close>: \<open>undefined\<close> (here \<open>None\<close>) outside the array.\<close>

definition elemAt :: "'a list \<Rightarrow> nat \<Rightarrow> 'a option" where
  "elemAt xs i = (if i < length xs then Some (xs ! i) else None)"

text \<open>Reading \<open>hint_embeddings[i]\<close>: \<open>undefined\<close> outside the array and at a hole.\<close>

definition slotAt :: "'a option list \<Rightarrow> nat \<Rightarrow> 'a option" where
  "slotAt xs i = (case elemAt xs i of Some (Some x) \<Rightarrow> Some x | _ \<Rightarrow> None)"

section \<open>\<open>cosineDistance\<close>\<close>

text \<open>
  The \<open>for\<close> loop of \<open>cosineDistance\<close>, run after the length check has passed:
  one step per index, three accumulators.
\<close>

fun cosineLoop ::
  "double list \<Rightarrow> double list \<Rightarrow> double \<times> double \<times> double \<Rightarrow> double \<times> double \<times> double" where
  "cosineLoop (x # xs) (y # ys) (dotProduct, magA, magB) =
     cosineLoop xs ys
       (dadd dotProduct (dmul x y), dadd magA (dmul x x), dadd magB (dmul y y))"
| "cosineLoop _ _ acc = acc"

definition cosineDistance :: "double list \<Rightarrow> double list \<Rightarrow> error + double" where
  "cosineDistance vecA vecB =
     (if length vecA \<noteq> length vecB then Inl (Error ''Vectors must have the same length'')
      else
        (case cosineLoop vecA vecB (Finite 0, Finite 0, Finite 0) of
           (dotProduct, sumA, sumB) \<Rightarrow>
             (let magA = dsqrt sumA; magB = dsqrt sumB in
              if deq magA (Finite 0) \<or> deq magB (Finite 0) then Inr (Finite 1)
              else Inr (dsub (Finite 1) (ddiv dotProduct (dmul magA magB))))))"

text \<open>
  The notions of the specification. Over the reals: dot product and Euclidean norm.
\<close>

definition dot :: "real list \<Rightarrow> real list \<Rightarrow> real" where
  "dot a b = sum_list (map2 (*) a b)"

definition magnitude :: "real list \<Rightarrow> real" where
  "magnitude a = sqrt (dot a a)"

text \<open>
  In double arithmetic: the dot product accumulated from the left, the magnitude as the
  rounded square root of the accumulated squares, and the distance formula on them.
\<close>

definition fdot :: "double list \<Rightarrow> double list \<Rightarrow> double" where
  "fdot a b = foldl (\<lambda>s (x, y). dadd s (dmul x y)) (Finite 0) (zip a b)"

definition fmag :: "double list \<Rightarrow> double" where
  "fmag a = dsqrt (fdot a a)"

definition cosd :: "double list \<Rightarrow> double list \<Rightarrow> double" where
  "cosd a b =
     (if deq (fmag a) (Finite 0) \<or> deq (fmag b) (Finite 0) then Finite 1
      else dsub (Finite 1) (ddiv (fdot a b) (dmul (fmag a) (fmag b))))"

text \<open>The distance formula of the specification over the reals.\<close>

definition cosr :: "real list \<Rightarrow> real list \<Rightarrow> real" where
  "cosr a b = 1 - dot a b / (magnitude a * magnitude b)"

text \<open>
  The accumulations of \<open>cosineDistance\<close> on two vectors are steady when there are
  fewer than \<open>2^20\<close> components, the accumulated dot product is finite and the two
  accumulated sums of squares are finite and lie between \<open>2^-1000\<close> and \<open>2^1000\<close>:
  no sum overflows and no sum of squares underflows.
\<close>

definition inRange :: "double \<Rightarrow> bool" where
  "inRange d = (isFinite d \<and> 1 / 2 ^ 1000 \<le> val d \<and> val d \<le> 2 ^ 1000)"

definition steady :: "double list \<Rightarrow> double list \<Rightarrow> bool" where
  "steady a b =
     (length a < 2 ^ 20 \<and> isFinite (fdot a b) \<and> inRange (fdot a a) \<and> inRange (fdot b b))"

section \<open>\<open>PuzzleManager\<close>\<close>

record PuzzleManager =
  puzzleData :: PuzzleData
  wordToEmbedding :: "string \<rightharpoonup> double list"
  shuffledVocabulary :: "string list"

text \<open>
  The constructor's loop over the vocabulary indices: an entry is stored when the word is
  truthy (present and non-empty) and the aligned embedding is present; a later entry of
  the same word replaces an earlier one.
\<close>

definition setEntry :: "PuzzleData \<Rightarrow> nat \<Rightarrow> (string \<rightharpoonup> double list) \<Rightarrow> (string \<rightharpoonup> double list)" where
  "setEntry pd i m =
     (case (elemAt (hint_vocabulary pd) i, slotAt (hint_embeddings pd) i) of
        (Some word, Some embedding) \<Rightarrow> if word \<noteq> [] then m(word \<mapsto> embedding) else m
      | _ \<Rightarrow> m)"

definition buildWordToEmbedding :: "PuzzleData \<Rightarrow> (string \<rightharpoonup> double list)" where
  "buildWordToEmbedding pd =
     fold (setEntry pd) [0..<length (hint_vocabulary pd)] Map.empty"

text \<open>
  \<open>random\<close> inside \<open>shuffleWithSeed\<close>: the value produced when the captured counter is
  \<open>i\<close>; the caller then continues with \<open>i + 1\<close>.
\<close>

definition random :: "nat \<Rightarrow> real" where
  "random i = (let x = sin (real i) * 10000 in x - of_int \<lfloor>x\<rfloor>)"

text \<open>
  The \<open>while (m)\<close> loop: \<open>j\<close> is computed from the old \<open>m\<close>, then \<open>m\<close> is
  decremented and the elements at \<open>m\<close> and \<open>j\<close> are exchanged.
\<close>

fun shuffleLoop :: "nat \<Rightarrow> nat \<Rightarrow> 'a list \<Rightarrow> 'a list" where
  "shuffleLoop i 0 array = array"
| "shuffleLoop i (Suc m) array =
     (let j = nat \<lfloor>random i * real (Suc m)\<rfloor>;
          t = array ! m;
          array1 = array[m := array ! j];
          array2 = array1[j := t]
      in shuffleLoop (Suc i) m array2)"

definition shuffleWithSeed :: "'a list \<Rightarrow> string \<Rightarrow> 'a list" where
  "shuffleWithSeed array seed = shuffleLoop 0 (length array) array"

definition newPuzzleManager :: "PuzzleData \<Rightarrow> PuzzleManager" where
  "newPuzzleManager pd =
     \<lparr> puzzleData = pd,
       wordToEmbedding = buildWordToEmbedding pd,
       shuffledVocabulary = shuffleWithSeed (hint_vocabulary pd) ''devvit-rocks'' \<rparr>"

text \<open>
  The static field \<open>PuzzleManager.instance\<close> is the state: \<open>None\<close> before the first
  call. \<open>getInstance\<close> returns the manager and the new value of the field.
\<close>

definition getInstance :: "PuzzleData \<Rightarrow> PuzzleManager option \<Rightarrow> PuzzleManager \<times> PuzzleManager option" where
  "getInstance pd inst =
     (case inst of
        None \<Rightarrow> (let m = newPuzzleManager pd in (m, Some m))
      | Some m \<Rightarrow> (m, Some m))"

definition getPuzzleManager :: "PuzzleData \<Rightarrow> PuzzleManager option \<Rightarrow> PuzzleManager \<times> PuzzleManager option" where
  "getPuzzleManager pd inst = getInstance pd inst"

text \<open>A sequence of calls of \<open>getPuzzleManager\<close>, one per payload; the managers returned, in order.\<close>

fun getPuzzleManagers :: "PuzzleData list \<Rightarrow> PuzzleManager option \<Rightarrow> PuzzleManager list" where
  "getPuzzleManagers [] inst = []"
| "getPuzzleManagers (pd # pds) inst =
     (case getPuzzleManager pd inst of (m, inst') \<Rightarrow> m # getPuzzleManagers pds inst')"


definition getVocabulary :: "PuzzleManager \<Rightarrow> string list" where
  "getVocabulary pm = hint_vocabulary (puzzleData pm)"

definition getEmbedding :: "PuzzleManager \<Rightarrow> string \<Rightarrow> double list option" where
  "getEmbedding pm word = wordToEmbedding pm word"

section \<open>\<open>findHint\<close>\<close>

text \<open>
  \<open>Array.prototype.map\<close> with a callback that may throw: the first throw ends it. On
  a sparse array the callback is not called at a hole and the result has a hole there;
  the length is kept.
\<close>

fun mapE :: "('a \<Rightarrow> error + 'b) \<Rightarrow> 'a list \<Rightarrow> error + 'b list" where
  "mapE f [] = Inr []"
| "mapE f (x # xs) =
     (case f x of
        Inl e \<Rightarrow> Inl e
      | Inr y \<Rightarrow> (case mapE f xs of Inl e \<Rightarrow> Inl e | Inr ys \<Rightarrow> Inr (y # ys)))"

fun mapSparse :: "('a \<Rightarrow> error + 'b) \<Rightarrow> 'a option list \<Rightarrow> error + 'b option list" where
  "mapSparse f [] = Inr []"
| "mapSparse f (None # xs) =
     (case mapSparse f xs of Inl e \<Rightarrow> Inl e | Inr ys \<Rightarrow> Inr (None # ys))"
| "mapSparse f (Some x # xs) =
     (case f x of
        Inl e \<Rightarrow> Inl e
      | Inr y \<Rightarrow> (case mapSparse f xs of Inl e \<Rightarrow> Inl e | Inr ys \<Rightarrow> Inr (Some y # ys)))"

definition collinearityScore :: "double list \<Rightarrow> double list \<Rightarrow> double list \<Rightarrow> error + double" where
  "collinearityScore guessEmbedding targetEmb hintEmbedding =
     (case cosineDistance guessEmbedding hintEmbedding of
        Inl e \<Rightarrow> Inl e
      | Inr guessDist \<Rightarrow>
          (case cosineDistance targetEmb hintEmbedding of
             Inl e \<Rightarrow> Inl e
           | Inr targetDist \<Rightarrow> Inr (dadd guessDist targetDist)))"

text \<open>
  The comparator \<open>(a, b) => collinearityScores[a] - collinearityScores[b]\<close>; a score
  read at a hole is \<open>undefined\<close>, which the subtraction turns into NaN.
\<close>

definition scoreAt :: "double option list \<Rightarrow> nat \<Rightarrow> double" where
  "scoreAt collinearityScores a =
     (case slotAt collinearityScores a of Some s \<Rightarrow> s | None \<Rightarrow> NaN)"

definition compareFn :: "double option list \<Rightarrow> nat \<Rightarrow> nat \<Rightarrow> double" where
  "compareFn collinearityScores a b =
     dsub (scoreAt collinearityScores a) (scoreAt collinearityScores b)"

text \<open>
  \<open>Array.prototype.sort\<close> with a comparator: an element goes after another when the
  comparator is positive on them; zero and NaN leave them in their order, for the sort
  is stable. When the comparator orders the elements consistently, every stable sort
  gives the result of this insertion sort. When it does not, ECMAScript leaves the order
  to the implementation, and this is one such order.
\<close>

fun insertSorted :: "('a \<Rightarrow> 'a \<Rightarrow> double) \<Rightarrow> 'a \<Rightarrow> 'a list \<Rightarrow> 'a list" where
  "insertSorted cmp x [] = [x]"
| "insertSorted cmp x (y # ys) =
     (if dlt (Finite 0) (cmp x y) then y # insertSorted cmp x ys else x # y # ys)"

definition jsSort :: "('a \<Rightarrow> 'a \<Rightarrow> double) \<Rightarrow> 'a list \<Rightarrow> 'a list" where
  "jsSort cmp xs = foldr (insertSorted cmp) xs []"

text \<open>\<open>[...Array(collinearityScores.length).keys()].sort(...)\<close>.\<close>

definition sortedIndices :: "double option list \<Rightarrow> nat list" where
  "sortedIndices collinearityScores =
     jsSort (compareFn collinearityScores) [0..<length collinearityScores]"

text \<open>\<open>s.includes(w)\<close>: \<open>w\<close> occurs in \<open>s\<close> as a contiguous run.\<close>

fun strIncludes :: "string \<Rightarrow> string \<Rightarrow> bool" where
  "strIncludes [] w = (w = [])"
| "strIncludes (c # cs) w = (prefix w (c # cs) \<or> strIncludes cs w)"

definition basicInvalid :: "GameState \<Rightarrow> string \<Rightarrow> bool" where
  "basicInvalid gameState hintWord =
     (hintWord = targetWord gameState \<or>
      hintWord \<in> set (guessesHistory gameState) \<or>
      hintWord \<in> set (usedHints gameState))"

definition wordsToCheck :: "GameState \<Rightarrow> string list" where
  "wordsToCheck gameState =
     targetWord gameState # guessesHistory gameState @ usedHints gameState"

definition substringCheck :: "GameState \<Rightarrow> string \<Rightarrow> bool" where
  "substringCheck gameState hintWord =
     list_ex (\<lambda>w. (3 \<le> length w \<and> strIncludes hintWord w) \<or>
                  (3 \<le> length hintWord \<and> strIncludes w hintWord))
       (wordsToCheck gameState)"

definition allGuessesEmbeddings :: "PuzzleManager \<Rightarrow> GameState \<Rightarrow> double list list" where
  "allGuessesEmbeddings pm gameState =
     List.map_filter (getEmbedding pm) (guessesHistory gameState)"

text \<open>
  A \<open>for (const idx of sortedIndices)\<close> loop whose body either continues
  (\<open>Inr None\<close>), returns a word (\<open>Inr (Some w)\<close>) or throws (\<open>Inl e\<close>). The loop
  ends with \<open>Inr None\<close> when the indices are exhausted.
\<close>

fun walk :: "(nat \<Rightarrow> error + string option) \<Rightarrow> nat list \<Rightarrow> error + string option" where
  "walk body [] = Inr None"
| "walk body (idx # rest) =
     (case body idx of
        Inl e \<Rightarrow> Inl e
      | Inr (Some w) \<Rightarrow> Inr (Some w)
      | Inr None \<Rightarrow> walk body rest)"

text \<open>Body of the first loop (lines 142 to 183).\<close>

definition firstPassBody ::
  "PuzzleManager \<Rightarrow> GameState \<Rightarrow> double \<Rightarrow> double \<Rightarrow> double list list \<Rightarrow> nat \<Rightarrow> error + string option" where
  "firstPassBody pm gameState min_dist_from_target min_dist_from_guesses guessEmbs idx =
     (case (elemAt (hint_vocabulary (puzzleData pm)) idx, slotAt (hint_embeddings (puzzleData pm)) idx) of
        (Some hintWord, Some hintEmbedding) \<Rightarrow>
          if hintWord = [] then Inr None
          else if basicInvalid gameState hintWord then Inr None
          else if substringCheck gameState hintWord then Inr None
          else
            (case cosineDistance (targetEmbedding gameState) hintEmbedding of
               Inl e \<Rightarrow> Inl e
             | Inr distanceFromTarget \<Rightarrow>
                 (case mapE (\<lambda>emb. cosineDistance emb hintEmbedding) guessEmbs of
                    Inl e \<Rightarrow> Inl e
                  | Inr distancesFromGuesses \<Rightarrow>
                      if dge distanceFromTarget min_dist_from_target \<and>
                         list_all (\<lambda>d. dge d min_dist_from_guesses) distancesFromGuesses
                      then Inr (Some hintWord)
                      else Inr None))
      | _ \<Rightarrow> Inr None)"

text \<open>Body of the fallback loop (lines 188 to 212).\<close>

definition fallbackBody :: "PuzzleManager \<Rightarrow> GameState \<Rightarrow> nat \<Rightarrow> error + string option" where
  "fallbackBody pm gameState idx =
     (case elemAt (hint_vocabulary (puzzleData pm)) idx of
        None \<Rightarrow> Inr None
      | Some hintWord \<Rightarrow>
          if hintWord = [] then Inr None
          else if basicInvalid gameState hintWord then Inr None
          else if substringCheck gameState hintWord then Inr None
          else Inr (Some hintWord))"

definition findHint :: "PuzzleManager \<Rightarrow> string \<Rightarrow> GameState \<Rightarrow> error + string" where
  "findHint pm guess gameState =
     (case getEmbedding pm guess of
        None \<Rightarrow> Inr ''unknown''
      | Some guessEmbedding \<Rightarrow>
          (case mapSparse (collinearityScore guessEmbedding (targetEmbedding gameState))
                  (hint_embeddings (puzzleData pm)) of
             Inl e \<Rightarrow> Inl e
           | Inr collinearityScores \<Rightarrow>
               (case cosineDistance guessEmbedding (targetEmbedding gameState) of
                  Inl e \<Rightarrow> Inl e
                | Inr D \<Rightarrow>
                    (case walk (firstPassBody pm gameState (dmul (lit 0.33) D) (dmul (lit 0.5) D)
                                  (allGuessesEmbeddings pm gameState))
                            (sortedIndices collinearityScores) of
                       Inl e \<Rightarrow> Inl e
                     | Inr (Some hintWord) \<Rightarrow> Inr hintWord
                     | Inr None \<Rightarrow>
                         (case walk (fallbackBody pm gameState)
                                 (sortedIndices collinearityScores) of
                            Inl e \<Rightarrow> Inl e
                          | Inr (Some hintWord) \<Rightarrow> Inr hintWord
                          | Inr None \<Rightarrow> Inr ''unknown'')))))"

section \<open>The route \<open>/api/puzzle/hint\<close>\<close>

text \<open>
  The handler of \<open>src/unnamed/part_000\<close> from the point where the target and the
  player's state have been read from the store. The session is the stored state: the
  handler returns with the state it has written, or with the state untouched when it
  returned or threw before any write. Its \<open>findHint\<close> is the one of
  \<open>src/client/puzzle.ts\<close>.
\<close>

record Response =
  correct :: "bool option"
  isGameOver :: bool
  message :: "string option"
  hint :: "string option"
  guessesRemaining :: "int option"

definition digit :: "nat \<Rightarrow> char" where
  "digit d = ''0123456789'' ! d"

text \<open>The decimal digits of a length, as a template literal prints them.\<close>

function showNat :: "nat \<Rightarrow> string" where
  "showNat n = (if n < 10 then [digit n] else showNat (n div 10) @ [digit (n mod 10)])"
  by pat_completeness auto
termination
  by (relation "measure id") auto

definition submitGuess :: "PuzzleManager \<Rightarrow> GameState \<Rightarrow> string \<Rightarrow> (error + Response) \<times> GameState" where
  "submitGuess pm session guess =
     (if solved session = Some True then
        (Inr \<lparr> correct = None, isGameOver = True,
               message = Some (''You have already completed this puzzle! The word was '' @ [CHR 0x27]
                               @ targetWord session @ [CHR 0x27] @ ''.''),
               hint = None, guessesRemaining = None \<rparr>,
         session)
      else
        (let playerState = session \<lparr> guessesHistory := guessesHistory session @ [guess] \<rparr> in
         if guess = targetWord session then
           (Inr \<lparr> correct = Some True, isGameOver = True,
                  message = Some (''Congratulations! You guessed the word in ''
                                  @ showNat (length (guessesHistory playerState)) @ '' tries!''),
                  hint = None, guessesRemaining = None \<rparr>,
            playerState \<lparr> solved := Some True \<rparr>)
         else if 10 \<le> length (guessesHistory playerState) then
           (Inr \<lparr> correct = Some False, isGameOver = True,
                  message = Some (''You've used all 10 guesses! The word was '' @ [CHR 0x27]
                                  @ targetWord session @ [CHR 0x27] @ ''.''),
                  hint = None, guessesRemaining = None \<rparr>,
            playerState \<lparr> solved := Some True \<rparr>)
         else
           (case findHint pm guess playerState of
              Inl e \<Rightarrow> (Inl e, session)
            | Inr h \<Rightarrow>
                (Inr \<lparr> correct = Some False, isGameOver = False, message = None,
                       hint = Some h,
                       guessesRemaining = Some (10 - int (length (guessesHistory playerState))) \<rparr>,
                 playerState \<lparr> usedHints := usedHints playerState @ [h] \<rparr>))))"



section \<open>Notions of the specification\<close>

text \<open>
  A substring collision in the words of the specification: one of the two words contains
  the other, and the shorter of the two has at least three characters.
\<close>

definition collision :: "string \<Rightarrow> string \<Rightarrow> bool" where
  "collision w x = (3 \<le> min (length w) (length x) \<and> (sublist x w \<or> sublist w x))"

text \<open>
  A word is excluded when it is the target, a word of the history or a used hint, or
  collides with one of them.
\<close>

definition excluded :: "GameState \<Rightarrow> string \<Rightarrow> bool" where
  "excluded gameState w =
     (w = targetWord gameState \<or> w \<in> set (guessesHistory gameState) \<or>
      w \<in> set (usedHints gameState) \<or>
      collision w (targetWord gameState) \<or>
      list_ex (collision w) (guessesHistory gameState) \<or>
      list_ex (collision w) (usedHints gameState))"

text \<open>
  The candidates of the two passes. For the fallback pass: an index of both tables with a
  non-empty word that is not excluded. For the first pass: such an index that holds an
  embedding whose distance from the target is at least \<open>0.33 \<times> D\<close> and whose distance
  from the embedding of every guess of the history that has one is at least
  \<open>0.5 \<times> D\<close>.
\<close>

definition candidate :: "PuzzleManager \<Rightarrow> GameState \<Rightarrow> nat \<Rightarrow> bool" where
  "candidate pm gameState idx =
     (idx < length (hint_vocabulary (puzzleData pm)) \<and>
      idx < length (hint_embeddings (puzzleData pm)) \<and>
      hint_vocabulary (puzzleData pm) ! idx \<noteq> [] \<and>
      \<not> excluded gameState (hint_vocabulary (puzzleData pm) ! idx))"

definition farFromGuesses :: "PuzzleManager \<Rightarrow> GameState \<Rightarrow> double \<Rightarrow> double list \<Rightarrow> bool" where
  "farFromGuesses pm gameState D h =
     list_all
       (\<lambda>g. case getEmbedding pm g of
               None \<Rightarrow> True
             | Some e \<Rightarrow> dge (cosd e h) (dmul (lit 0.5) D))
       (guessesHistory gameState)"

definition constrained :: "PuzzleManager \<Rightarrow> GameState \<Rightarrow> double \<Rightarrow> nat \<Rightarrow> bool" where
  "constrained pm gameState D idx =
     (candidate pm gameState idx \<and>
      (case slotAt (hint_embeddings (puzzleData pm)) idx of
         None \<Rightarrow> False
       | Some h \<Rightarrow>
           dge (cosd (targetEmbedding gameState) h) (dmul (lit 0.33) D) \<and>
           farFromGuesses pm gameState D h))"



text \<open>
  The invariants of the embedding table: one dimension, shared with the target; and,
  for a guess, no score that is NaN, which leaves no hole either.
\<close>

definition sameDimension :: "PuzzleManager \<Rightarrow> GameState \<Rightarrow> bool" where
  "sameDimension pm gameState =
     list_all (\<lambda>slot. case slot of
                 None \<Rightarrow> True
               | Some e \<Rightarrow> length e = length (targetEmbedding gameState))
       (hint_embeddings (puzzleData pm))"


text \<open>
  The ranking \<open>findHint\<close> walks when every distance is defined: the indices of the
  embedding table, sorted by the comparator on the collinearity scores.
\<close>

definition scoresOf :: "PuzzleData \<Rightarrow> double list \<Rightarrow> GameState \<Rightarrow> double option list" where
  "scoresOf pd guessEmbedding gameState =
     map (map_option (\<lambda>h. dadd (cosd guessEmbedding h) (cosd (targetEmbedding gameState) h)))
       (hint_embeddings pd)"

definition ranking :: "PuzzleData \<Rightarrow> double list \<Rightarrow> GameState \<Rightarrow> nat list" where
  "ranking pd guessEmbedding gameState = sortedIndices (scoresOf pd guessEmbedding gameState)"

section \<open>Small tables\<close>

text \<open>
  Five words in four dimensions; every component is 1 or -1, so that every operation of
  \<open>cosineDistance\<close> on them is exact.
\<close>

definition toyData :: PuzzleData where
  "toyData =
     \<lparr> hint_vocabulary = [''car'', ''cat'', ''dog'', ''lion'', ''kitten''],
       hint_embeddings =
         [Some [Finite (- 1), Finite (- 1), Finite (- 1), Finite (- 1)],
          Some [Finite 1, Finite 1, Finite 1, Finite 1],
          Some [Finite 1, Finite 1, Finite (- 1), Finite (- 1)],
          Some [Finite 1, Finite 1, Finite 1, Finite 1],
          Some [Finite 1, Finite 1, Finite 1, Finite (- 1)]] \<rparr>"

definition toyManager :: PuzzleManager where
  "toyManager = newPuzzleManager toyData"

definition toySession :: GameState where
  "toySession =
     \<lparr> targetWord = ''cat'', targetEmbedding = [Finite 1, Finite 1, Finite 1, Finite 1],
       guessesHistory = [], usedHints = [], solved = None \<rparr>"

definition toyGame :: GameState where
  "toyGame = toySession \<lparr> guessesHistory := [''dog''] \<rparr>"

text \<open>
  A table of two words, the same vocabulary with other embeddings, a session after the
  guess \<open>dog\<close>, and the session after the sentinel has been given as a hint and
  \<open>dog\<close> is guessed again.
\<close>

definition twoData :: PuzzleData where
  "twoData =
     \<lparr> hint_vocabulary = [''cat'', ''dog''],
       hint_embeddings = [Some [Finite 1, Finite 0], Some [Finite 0, Finite 1]] \<rparr>"


definition twoManager :: PuzzleManager where
  "twoManager = newPuzzleManager twoData"

definition twoSession :: GameState where
  "twoSession =
     \<lparr> targetWord = ''cat'', targetEmbedding = [Finite 1, Finite 0], guessesHistory = [''dog''],
       usedHints = [], solved = None \<rparr>"

definition twoGame :: GameState where
  "twoGame = twoSession \<lparr> guessesHistory := [''dog'', ''dog''], usedHints := [''unknown''] \<rparr>"

text \<open>A sparse table: the third word has a hole for its embedding.\<close>

definition sparseData :: PuzzleData where
  "sparseData =
     \<lparr> hint_vocabulary = [''cat'', ''dog'', ''owl''],
       hint_embeddings = [Some [Finite 1, Finite 0], Some [Finite 0, Finite 1], None] \<rparr>"

definition sparseManager :: PuzzleManager where
  "sparseManager = newPuzzleManager sparseData"

section \<open>Facts about rounding\<close>

lemma p2_powr: "p2 k = 2 powr (of_int k)"
  by (simp add: p2_def powr_realpow [symmetric] powr_minus divide_inverse)

lemma p2_pos [simp]: "0 < p2 k"
  by (simp add: p2_powr)

lemma p2_ge_0 [simp]: "0 \<le> p2 k"
  using p2_pos [of k] by linarith

lemma p2_neq_0 [simp]: "p2 k \<noteq> 0"
  using p2_pos [of k] by linarith

lemma p2_not_le_0 [simp]: "\<not> p2 k \<le> 0"
  using p2_pos [of k] by linarith

lemma p2_abs [simp]: "\<bar>p2 k\<bar> = p2 k"
  using p2_pos [of k] by linarith

lemma p2_add: "p2 (a + b) = p2 a * p2 b"
  by (simp add: p2_powr powr_add)

lemma p2_le_iff [simp]: "p2 a \<le> p2 b \<longleftrightarrow> a \<le> b"
  by (simp add: p2_powr)

lemma p2_less_iff [simp]: "p2 a < p2 b \<longleftrightarrow> a < b"
  by (simp add: p2_powr)

lemma p2_nat: "0 \<le> k \<Longrightarrow> p2 k = of_int (2 ^ nat k)"
  by (simp add: p2_def)

lemma double_simps [simp]:
  "val (Finite x) = x" "val NegZero = 0" "val PosInf = 0" "val NegInf = 0" "val NaN = 0"
  "negative (Finite x) = (x < 0)" "negative NegZero" "\<not> negative PosInf" "negative NegInf"
  "\<not> negative NaN"
  "isFinite (Finite x)" "isFinite NegZero" "\<not> isFinite PosInf" "\<not> isFinite NegInf"
  "\<not> isFinite NaN"
  "rank (Finite x) = 0" "rank NegZero = 0" "rank PosInf = 1" "rank NegInf = - 1" "rank NaN = 0"
  by (simp_all add: val_def negative_def isFinite_def rank_def)

lemma val_zero [simp]: "val (zero n) = 0" "val (infinity n) = 0"
  by (simp_all add: zero_def infinity_def)

lemma expo_eq: "p2 e \<le> \<bar>x\<bar> \<Longrightarrow> \<bar>x\<bar> < p2 (e + 1) \<Longrightarrow> expo x = e"
proof -
  assume a: "p2 e \<le> \<bar>x\<bar>" "\<bar>x\<bar> < p2 (e + 1)"
  have "0 < \<bar>x\<bar>" using a(1) p2_pos [of e] by linarith
  then show ?thesis
    unfolding expo_def using a
    by (subst floor_log_eq_powr_iff) (simp_all add: p2_powr)
qed

lemma expo_bounds: "x \<noteq> 0 \<Longrightarrow> p2 (expo x) \<le> \<bar>x\<bar> \<and> \<bar>x\<bar> < p2 (expo x + 1)"
  using floor_log_eq_powr_iff [of "\<bar>x\<bar>" 2 "expo x"]
  by (simp add: expo_def p2_powr)

lemma roundEven_int [simp]: "roundEven (of_int m) = m"
  by (simp add: roundEven_def)

lemma roundEven_zero [simp]: "roundEven 0 = 0"
  by (simp add: roundEven_def)

lemma rnd_zero [simp]: "rnd neg 0 = zero neg"
  by (simp add: rnd_def)

lemma floor_cases:
  obtains f :: int where "f = \<lfloor>q\<rfloor>" "of_int f \<le> q" "q < of_int f + 1"
  using floor_correct [of q] by auto

lemma int_le_half: "real_of_int a < real_of_int b + 1 / 2 \<Longrightarrow> a \<le> b"
proof -
  assume "real_of_int a < real_of_int b + 1 / 2"
  then have "real_of_int a < real_of_int (b + 1)" by simp
  then have "a < b + 1" by (simp only: of_int_less_iff)
  then show ?thesis by simp
qed

lemma roundEven_near:
  assumes "of_int m - 1 / 2 < q" "q < of_int m + 1 / 2"
  shows "roundEven q = m"
proof -
  obtain f :: int where f: "f = \<lfloor>q\<rfloor>" "of_int f \<le> q" "q < of_int f + 1"
    by (rule floor_cases)
  have "f \<le> m" using f(2) assms(2) by (intro int_le_half) linarith
  moreover have "m - 1 \<le> f" using f(3) assms(1) by (intro int_le_half) simp
  ultimately consider "f = m" | "f = m - 1" by linarith
  then show ?thesis
  proof cases
    case 1
    then show ?thesis using assms f unfolding roundEven_def Let_def f(1) [symmetric] by simp
  next
    case 2
    then have "1 / 2 < q - of_int f" using assms(1) by simp
    then show ?thesis using 2 unfolding roundEven_def Let_def f(1) [symmetric] by simp
  qed
qed

lemma roundEven_ge: "of_int m \<le> q \<Longrightarrow> m \<le> roundEven q"
proof -
  assume a: "of_int m \<le> q"
  then have "m \<le> \<lfloor>q\<rfloor>" by (simp add: le_floor_iff)
  then show ?thesis unfolding roundEven_def Let_def by auto
qed

lemma roundEven_le: "q \<le> of_int m \<Longrightarrow> roundEven q \<le> m"
proof -
  assume a: "q \<le> of_int m"
  obtain f :: int where f: "f = \<lfloor>q\<rfloor>" "of_int f \<le> q" "q < of_int f + 1"
    by (rule floor_cases)
  have fm: "f \<le> m" using f(2) a by (intro int_le_half) linarith
  show ?thesis
  proof (cases "f = m")
    case True
    then have "q = of_int f" using f(2) a by simp
    then show ?thesis using True by simp
  next
    case False
    then have "f + 1 \<le> m" using fm by simp
    then show ?thesis unfolding roundEven_def Let_def f(1) [symmetric] by auto
  qed
qed

lemma roundEven_error: "\<bar>of_int (roundEven q) - q\<bar> \<le> 1 / 2"
proof -
  obtain f :: int where f: "f = \<lfloor>q\<rfloor>" "of_int f \<le> q" "q < of_int f + 1"
    by (rule floor_cases)
  show ?thesis
    using f(2,3) unfolding roundEven_def Let_def f(1) [symmetric]
    by (auto simp: abs_le_iff)
qed

text \<open>A real that the format represents is rounded to itself.\<close>

lemma rnd_exact:
  assumes x: "x = of_int m * p2 e" and m: "\<bar>m\<bar> < 2 ^ 53" and e: "- 1074 \<le> e"
    and big: "\<bar>x\<bar> < p2 1024"
  shows "rnd neg x = (if x = 0 then zero neg else Finite x)"
proof (cases "x = 0")
  case True
  then show ?thesis by simp
next
  case False
  define k where "k = max (expo x) (- 1022) - 52"
  have "\<bar>x\<bar> < p2 (e + 53)"
  proof -
    have "\<bar>real_of_int m\<bar> < 2 ^ 53"
      using m by (metis of_int_abs of_int_less_numeral_power_cancel_iff)
    then have "\<bar>real_of_int m\<bar> * p2 e < 2 ^ 53 * p2 e"
      by (intro mult_strict_right_mono) simp_all
    moreover have "\<bar>x\<bar> = \<bar>real_of_int m\<bar> * p2 e"
      unfolding x by (simp add: abs_mult)
    moreover have "p2 (e + 53) = 2 ^ 53 * p2 e"
    proof -
      have "p2 53 = 2 ^ 53" by (simp add: p2_def)
      then show ?thesis using p2_add [of e 53] by (simp add: mult.commute)
    qed
    ultimately show ?thesis by simp
  qed
  moreover have "p2 (expo x) \<le> \<bar>x\<bar>" using expo_bounds [OF False] by simp
  ultimately have "p2 (expo x) < p2 (e + 53)" by linarith
  then have "expo x - 52 \<le> e" by simp
  then have ke: "k \<le> e" using e by (simp add: k_def)
  have "p2 e = p2 k * p2 (e - k)" using p2_add [of k "e - k"] by simp
  also have "p2 (e - k) = of_int (2 ^ nat (e - k))" using ke by (simp add: p2_nat)
  finally have q: "x / p2 k = of_int (m * 2 ^ nat (e - k))"
    unfolding x by simp
  have "real_of_int (roundEven (x / p2 k)) = x / p2 k"
    by (simp only: q roundEven_int)
  then have "p2 k * of_int (roundEven (x / p2 k)) = x"
    by simp
  then show ?thesis
    using False big by (simp add: rnd_def ulp_def k_def [symmetric])
qed

lemma rnd_int:
  "\<bar>m\<bar> < 2 ^ 53 \<Longrightarrow> rnd neg (of_int m) = (if m = 0 then zero neg else Finite (of_int m))"
proof -
  assume m: "\<bar>m\<bar> < 2 ^ 53"
  have "\<bar>real_of_int m\<bar> < 2 ^ 53"
    using m by (metis of_int_abs of_int_less_numeral_power_cancel_iff)
  then have "\<bar>real_of_int m\<bar> < p2 1024" by (simp add: p2_def)
  with rnd_exact [of "of_int m" m 0 neg] m show ?thesis by (simp add: p2_def)
qed

lemma dmul_commute: "dmul a b = dmul b a"
proof -
  have "(negative a \<noteq> negative b) = (negative b \<noteq> negative a)" by auto
  then show ?thesis unfolding dmul_def by (auto simp: mult.commute)
qed

lemma ulp_grid: "\<exists>n. ulp x = of_int (2 ^ n) * p2 (- 1074)"
proof -
  define k where "k = max (expo x) (- 1022) - 52"
  have "- 1074 \<le> k" by (simp add: k_def)
  then have "p2 k = p2 (k + 1074) * p2 (- 1074)" using p2_add [of "k + 1074" "- 1074"] by simp
  also have "p2 (k + 1074) = of_int (2 ^ nat (k + 1074))"
    using \<open>- 1074 \<le> k\<close> by (simp add: p2_nat)
  finally show ?thesis unfolding ulp_def k_def [symmetric] by blast
qed

lemma rnd_gridded: "gridded (rnd neg x)"
proof -
  obtain n where n: "ulp x = of_int (2 ^ n) * p2 (- 1074)" using ulp_grid by blast
  have "ulp x * of_int (roundEven (x / ulp x)) =
        of_int (2 ^ n * roundEven (x / ulp x)) * p2 (- 1074)"
    by (simp add: n)
  then have "\<exists>j. ulp x * of_int (roundEven (x / ulp x)) = of_int j * p2 (- 1074)" by blast
  moreover have "\<exists>j. (0::real) = of_int j * p2 (- 1074)" by (rule exI [of _ 0]) simp
  ultimately show ?thesis
    by (auto simp: gridded_def rnd_def Let_def infinity_def zero_def)
qed

lemma ulp_pos [simp]: "0 < ulp x"
  by (simp add: ulp_def)






lemma dadd_gridded: "gridded (dadd a b)"
  using rnd_gridded
  by (cases a; cases b) (auto simp: dadd_def gridded_def intro: exI [of _ 0])


section \<open>Facts about \<open>cosineDistance\<close>\<close>

lemma foldl_zip_same:
  "foldl (\<lambda>s (x, y). dadd s (dmul x y)) acc (zip a a) = foldl (\<lambda>s x. dadd s (dmul x x)) acc a"
  by (induction a arbitrary: acc) simp_all

lemma cosineLoop_sums:
  "length a = length b \<Longrightarrow>
   cosineLoop a b (d, ma, mb) =
     (foldl (\<lambda>s (x, y). dadd s (dmul x y)) d (zip a b),
      foldl (\<lambda>s x. dadd s (dmul x x)) ma a,
      foldl (\<lambda>s x. dadd s (dmul x x)) mb b)"
proof (induction a b arbitrary: d ma mb rule: list_induct2)
  case Nil
  then show ?case by simp
next
  case (Cons x xs y ys)
  then show ?case by simp
qed

lemma cosineDistance_eq:
  "length a = length b \<Longrightarrow> cosineDistance a b = Inr (cosd a b)"
  by (simp add: cosineDistance_def cosineLoop_sums cosd_def fmag_def fdot_def
      foldl_zip_same Let_def)

lemma cosineDistance_raises:
  "length a \<noteq> length b \<Longrightarrow>
   cosineDistance a b = Inl (Error ''Vectors must have the same length'')"
  by (simp add: cosineDistance_def)

lemma cosineDistance_Inr_iff:
  "cosineDistance a b = Inr d \<longleftrightarrow> length a = length b \<and> d = cosd a b"
  by (cases "length a = length b") (auto simp: cosineDistance_eq cosineDistance_raises)

lemma foldl_dot_commute:
  "length a = length b \<Longrightarrow>
   foldl (\<lambda>s (x, y). dadd s (dmul x y)) acc (zip a b) =
   foldl (\<lambda>s (x, y). dadd s (dmul x y)) acc (zip b a)"
  by (induction a b arbitrary: acc rule: list_induct2) (simp_all add: dmul_commute)

lemma fdot_commute: "length a = length b \<Longrightarrow> fdot a b = fdot b a"
  by (simp add: fdot_def foldl_dot_commute)

lemma cosd_commute: "length a = length b \<Longrightarrow> cosd a b = cosd b a"
  by (auto simp: cosd_def fdot_commute dmul_commute)

section \<open>Facts about the loops and the table\<close>

lemma mapE_Inr:
  "(\<And>x. x \<in> set xs \<Longrightarrow> f x = Inr (g x)) \<Longrightarrow> mapE f xs = Inr (map g xs)"
  by (induction xs) simp_all

lemma mapE_length: "mapE f xs = Inr ys \<Longrightarrow> length ys = length xs"
  by (induction xs arbitrary: ys) (auto split: sum.splits)

lemma mapSparse_Inr:
  "(\<And>x. Some x \<in> set xs \<Longrightarrow> f x = Inr (g x)) \<Longrightarrow>
   mapSparse f xs = Inr (map (map_option g) xs)"
proof (induction xs)
  case Nil
  then show ?case by simp
next
  case (Cons slot xs)
  then show ?case by (cases slot) simp_all
qed

lemma mapSparse_length: "mapSparse f xs = Inr ys \<Longrightarrow> length ys = length xs"
proof (induction xs arbitrary: ys)
  case Nil
  then show ?case by simp
next
  case (Cons slot xs)
  then show ?case by (cases slot) (auto split: sum.splits)
qed

lemma walk_Some_D:
  "walk body xs = Inr (Some w) \<Longrightarrow> \<exists>idx \<in> set xs. body idx = Inr (Some w)"
  by (induction xs) (auto split: sum.splits option.splits)

lemma walk_None_D:
  "walk body xs = Inr None \<Longrightarrow> idx \<in> set xs \<Longrightarrow> body idx = Inr None"
  by (induction xs) (auto split: sum.splits option.splits)

lemma walk_find:
  "(\<And>idx. idx \<in> set xs \<Longrightarrow> body idx = Inr (if P idx then Some (f idx) else None)) \<Longrightarrow>
   walk body xs = Inr (map_option f (List.find P xs))"
  by (induction xs) simp_all

lemma find_Some_D: "List.find P xs = Some i \<Longrightarrow> P i \<and> i \<in> set xs"
  by (induction xs) (auto split: if_splits)

lemma find_None_D: "List.find P xs = None \<Longrightarrow> i \<in> set xs \<Longrightarrow> \<not> P i"
  by (induction xs) (auto split: if_splits)


lemma strIncludes_sublist: "strIncludes s w \<longleftrightarrow> sublist w s"
  by (induction s) (simp_all add: sublist_Cons_right)

lemma collision_code:
  "(3 \<le> length x \<and> strIncludes w x) \<or> (3 \<le> length w \<and> strIncludes x w) \<longleftrightarrow> collision w x"
  using sublist_length_le [of x w] sublist_length_le [of w x]
  by (auto simp: collision_def strIncludes_sublist)

lemma excluded_code: "basicInvalid gs w \<or> substringCheck gs w \<longleftrightarrow> excluded gs w"
  by (auto simp: basicInvalid_def excluded_def substringCheck_def wordsToCheck_def
      collision_code list_ex_iff)

lemma slotAt_Some_iff: "slotAt xs i = Some x \<longleftrightarrow> i < length xs \<and> xs ! i = Some x"
  by (auto simp: slotAt_def elemAt_def split: option.splits)

lemma slotAt_in_set: "slotAt xs i = Some x \<Longrightarrow> Some x \<in> set xs"
  using nth_mem [of i xs] by (auto simp: slotAt_Some_iff)

lemma fold_setEntry_ran:
  "fold (setEntry pd) is m w = Some e \<Longrightarrow> m w = Some e \<or> Some e \<in> set (hint_embeddings pd)"
proof (induction "is" arbitrary: m)
  case Nil
  then show ?case by simp
next
  case (Cons i "is")
  from Cons.IH [OF Cons.prems [simplified]]
  show ?case
    by (auto simp: setEntry_def dest: slotAt_in_set split: option.splits if_splits)
qed

lemma fold_setEntry_keeps:
  "m w \<noteq> None \<Longrightarrow> fold (setEntry pd) is m w \<noteq> None"
proof (induction "is" arbitrary: m)
  case Nil
  then show ?case by simp
next
  case (Cons i "is")
  have "setEntry pd i m w \<noteq> None"
    using Cons.prems by (auto simp: setEntry_def split: option.splits)
  then show ?case using Cons.IH by simp
qed

lemma fold_setEntry_member:
  assumes "i \<in> set is" "i < length (hint_vocabulary pd)"
    "slotAt (hint_embeddings pd) i \<noteq> None" "hint_vocabulary pd ! i \<noteq> []"
  shows "fold (setEntry pd) is m (hint_vocabulary pd ! i) \<noteq> None"
  using assms(1)
proof (induction "is" arbitrary: m)
  case Nil
  then show ?case by simp
next
  case (Cons k "is")
  show ?case
  proof (cases "k = i")
    case True
    have "setEntry pd i m (hint_vocabulary pd ! i) \<noteq> None"
      using assms(2-4) by (auto simp: setEntry_def elemAt_def)
    then show ?thesis using True fold_setEntry_keeps by simp
  next
    case False
    then show ?thesis using Cons by simp
  qed
qed

lemma fold_setEntry_absent:
  assumes "\<And>i. i \<in> set is \<Longrightarrow> elemAt (hint_vocabulary pd) i = Some w \<Longrightarrow>
             slotAt (hint_embeddings pd) i = None"
    and "m w = None"
  shows "fold (setEntry pd) is m w = None"
  using assms
proof (induction "is" arbitrary: m)
  case Nil
  then show ?case by simp
next
  case (Cons k "is")
  have "setEntry pd k m w = None"
    using Cons.prems(1) [of k] Cons.prems(2)
    by (auto simp: setEntry_def split: option.splits)
  then show ?case using Cons.IH [of "setEntry pd k m"] Cons.prems(1) by simp
qed

lemma puzzleData_new [simp]: "puzzleData (newPuzzleManager pd) = pd"
  by (simp add: newPuzzleManager_def)

lemma getEmbedding_in_table:
  "getEmbedding (newPuzzleManager pd) w = Some e \<Longrightarrow> Some e \<in> set (hint_embeddings pd)"
  using fold_setEntry_ran [of pd _ Map.empty w e]
  by (simp add: getEmbedding_def newPuzzleManager_def buildWordToEmbedding_def)

lemma getEmbedding_defined:
  "i < length (hint_vocabulary pd) \<Longrightarrow> slotAt (hint_embeddings pd) i \<noteq> None \<Longrightarrow>
   hint_vocabulary pd ! i \<noteq> [] \<Longrightarrow>
   getEmbedding (newPuzzleManager pd) (hint_vocabulary pd ! i) \<noteq> None"
  using fold_setEntry_member [of i "[0..<length (hint_vocabulary pd)]" pd Map.empty]
  by (simp add: getEmbedding_def newPuzzleManager_def buildWordToEmbedding_def)


lemma mset_insertSorted: "mset (insertSorted cmp x ys) = add_mset x (mset ys)"
  by (induction ys) auto

lemma mset_jsSort: "mset (jsSort cmp xs) = mset xs"
  by (induction xs) (simp_all add: jsSort_def mset_insertSorted)

lemma set_jsSort: "set (jsSort cmp xs) = set xs"
  using mset_jsSort [of cmp xs] by (metis set_mset_mset)

lemma sortedIndices_set: "set (sortedIndices scores) = {0..<length scores}"
  by (simp add: sortedIndices_def set_jsSort)

lemma sameDimension_D:
  "sameDimension pm gs \<Longrightarrow> Some e \<in> set (hint_embeddings (puzzleData pm)) \<Longrightarrow>
   length e = length (targetEmbedding gs)"
  by (auto simp: sameDimension_def list_all_iff split: option.splits)

lemma set_allGuessesEmbeddings:
  "set (allGuessesEmbeddings pm gs) =
     {e. \<exists>g \<in> set (guessesHistory gs). getEmbedding pm g = Some e}"
  by (force simp: allGuessesEmbeddings_def map_filter_def image_iff)

lemma allGuessesEmbeddings_in_table:
  "e \<in> set (allGuessesEmbeddings (newPuzzleManager pd) gs) \<Longrightarrow>
   Some e \<in> set (hint_embeddings pd)"
  by (auto simp: set_allGuessesEmbeddings dest: getEmbedding_in_table)

lemma farFromGuesses_iff:
  "farFromGuesses pm gs D h \<longleftrightarrow>
     (\<forall>e \<in> set (allGuessesEmbeddings pm gs). dge (cosd e h) (dmul (lit 0.5) D))"
  by (auto simp: farFromGuesses_def set_allGuessesEmbeddings list_all_iff split: option.splits)

lemma fallbackBody_eq:
  "fallbackBody pm gs idx =
     Inr (if idx < length (hint_vocabulary (puzzleData pm)) \<and>
             hint_vocabulary (puzzleData pm) ! idx \<noteq> [] \<and>
             \<not> excluded gs (hint_vocabulary (puzzleData pm) ! idx)
          then Some (hint_vocabulary (puzzleData pm) ! idx) else None)"
  using excluded_code [of gs "hint_vocabulary (puzzleData pm) ! idx"]
  by (auto simp: fallbackBody_def elemAt_def)

lemma fallbackBody_candidate:
  "idx < length (hint_embeddings (puzzleData pm)) \<Longrightarrow>
   fallbackBody pm gs idx =
     Inr (if candidate pm gs idx then Some (hint_vocabulary (puzzleData pm) ! idx) else None)"
  by (simp add: fallbackBody_eq candidate_def)

lemma firstPassBody_constrained:
  assumes dim: "sameDimension (newPuzzleManager pd) gs"
  shows "firstPassBody (newPuzzleManager pd) gs (dmul (lit 0.33) D) (dmul (lit 0.5) D)
           (allGuessesEmbeddings (newPuzzleManager pd) gs) idx =
         Inr (if constrained (newPuzzleManager pd) gs D idx
              then Some (hint_vocabulary pd ! idx) else None)"
proof (cases "idx < length (hint_vocabulary pd) \<and> slotAt (hint_embeddings pd) idx \<noteq> None")
  case False
  then show ?thesis
    by (auto simp: firstPassBody_def elemAt_def constrained_def candidate_def
        split: option.splits)
next
  case True
  then obtain h where h: "slotAt (hint_embeddings pd) idx = Some h" by auto
  let ?pm = "newPuzzleManager pd"
  have hin: "Some h \<in> set (hint_embeddings pd)" using h by (rule slotAt_in_set)
  then have lh: "length h = length (targetEmbedding gs)"
    using sameDimension_D [OF dim] by simp
  have il: "idx < length (hint_embeddings pd)" using h by (simp add: slotAt_Some_iff)
  have t: "cosineDistance (targetEmbedding gs) h = Inr (cosd (targetEmbedding gs) h)"
    using lh by (simp add: cosineDistance_eq)
  have "\<And>emb. emb \<in> set (allGuessesEmbeddings ?pm gs) \<Longrightarrow>
          cosineDistance emb h = Inr (cosd emb h)"
    using sameDimension_D [OF dim] lh
    by (simp add: cosineDistance_eq allGuessesEmbeddings_in_table)
  then have g: "mapE (\<lambda>emb. cosineDistance emb h) (allGuessesEmbeddings ?pm gs) =
      Inr (map (\<lambda>emb. cosd emb h) (allGuessesEmbeddings ?pm gs))"
    by (rule mapE_Inr)
  show ?thesis
    using True il excluded_code [of gs "hint_vocabulary pd ! idx"]
    by (auto simp: firstPassBody_def elemAt_def constrained_def candidate_def h t g
        list_all_iff farFromGuesses_iff)
qed

lemma collinearityScores_eq:
  assumes dim: "sameDimension (newPuzzleManager pd) gs"
    and ge: "length ge = length (targetEmbedding gs)"
  shows "mapSparse (collinearityScore ge (targetEmbedding gs)) (hint_embeddings pd) =
         Inr (scoresOf pd ge gs)"
  unfolding scoresOf_def
proof (rule mapSparse_Inr)
  fix e assume "Some e \<in> set (hint_embeddings pd)"
  then have "length e = length (targetEmbedding gs)"
    using sameDimension_D [OF dim] by simp
  then show "collinearityScore ge (targetEmbedding gs) e =
      Inr (dadd (cosd ge e) (cosd (targetEmbedding gs) e))"
    using ge by (simp add: collinearityScore_def cosineDistance_eq)
qed

lemma findHint_eq:
  assumes emb: "getEmbedding (newPuzzleManager pd) guess = Some ge"
    and dim: "sameDimension (newPuzzleManager pd) gs"
  shows "findHint (newPuzzleManager pd) guess gs =
     Inr (case List.find (constrained (newPuzzleManager pd) gs (cosd ge (targetEmbedding gs)))
                 (ranking pd ge gs) of
            Some i \<Rightarrow> hint_vocabulary pd ! i
          | None \<Rightarrow>
              (case List.find (candidate (newPuzzleManager pd) gs) (ranking pd ge gs) of
                 Some i \<Rightarrow> hint_vocabulary pd ! i
               | None \<Rightarrow> ''unknown''))"
proof -
  let ?pm = "newPuzzleManager pd"
  let ?te = "targetEmbedding gs"
  have lge: "length ge = length ?te"
    using getEmbedding_in_table [OF emb] sameDimension_D [OF dim] by simp
  have D: "cosineDistance ge ?te = Inr (cosd ge ?te)"
    using lge by (simp add: cosineDistance_eq)
  have w1: "walk (firstPassBody ?pm gs (dmul (lit 0.33) (cosd ge ?te)) (dmul (lit 0.5) (cosd ge ?te))
              (allGuessesEmbeddings ?pm gs)) (ranking pd ge gs) =
            Inr (map_option (\<lambda>i. hint_vocabulary pd ! i)
                  (List.find (constrained ?pm gs (cosd ge ?te)) (ranking pd ge gs)))"
    by (rule walk_find) (rule firstPassBody_constrained [OF dim])
  have w2: "walk (fallbackBody ?pm gs) (ranking pd ge gs) =
            Inr (map_option (\<lambda>i. hint_vocabulary pd ! i)
                  (List.find (candidate ?pm gs) (ranking pd ge gs)))"
    by (rule walk_find)
      (use fallbackBody_candidate [of _ ?pm gs] in
        \<open>simp add: ranking_def sortedIndices_set scoresOf_def\<close>)
  have sc: "mapSparse (collinearityScore ge ?te) (hint_embeddings (puzzleData ?pm)) =
      Inr (scoresOf pd ge gs)"
    using collinearityScores_eq [OF dim lge] by simp
  show ?thesis
    unfolding findHint_def
    apply (simp only: emb option.case sc sum.case D w1 [unfolded ranking_def]
        w2 [unfolded ranking_def] ranking_def)
    apply (simp split: option.splits)
    done
qed


section \<open>The order of the ranking\<close>














section \<open>Rounding on small numbers\<close>

lemma rnd_numeral [simp]:
  "numeral n < (2 ^ 53 :: int) \<Longrightarrow> rnd neg (numeral n) = Finite (numeral n)"
  using rnd_int [of "numeral n" neg] by simp

lemma rnd_neg_numeral [simp]:
  "numeral n < (2 ^ 53 :: int) \<Longrightarrow> rnd neg (- numeral n) = Finite (- numeral n)"
  using rnd_int [of "- numeral n" neg] by simp

lemma rnd_one [simp]: "rnd neg 1 = Finite 1" "rnd neg (- 1) = Finite (- 1)"
  using rnd_int [of 1 neg] rnd_int [of "- 1" neg] by simp_all

lemma rnd_half [simp]: "rnd neg (1 / 2) = Finite (1 / 2)" "rnd neg (- (1 / 2)) = Finite (- (1 / 2))"
  using rnd_exact [of "1 / 2" 1 "- 1" neg] rnd_exact [of "- (1 / 2)" "- 1" "- 1" neg]
  by (simp_all add: p2_def)

lemmas double_ops = dadd_def dsub_def dmul_def ddiv_def dsqrt_def dneg_def isZero_def
  zero_def infinity_def dlt_def deq_def dge_def


section \<open>Rounding near a grid point\<close>

lemma rnd_near:
  assumes lo: "p2 e \<le> \<bar>x\<bar>" and hi: "\<bar>x\<bar> < p2 (e + 1)" and e: "- 1022 \<le> e"
    and m: "of_int m - 1 / 2 < x / p2 (e - 52)" "x / p2 (e - 52) < of_int m + 1 / 2"
    and r: "of_int m * p2 (e - 52) \<noteq> 0" "\<bar>of_int m * p2 (e - 52)\<bar> < p2 1024"
  shows "rnd neg x = Finite (of_int m * p2 (e - 52))"
proof -
  have "expo x = e" using lo hi by (rule expo_eq)
  then have u: "ulp x = p2 (e - 52)" using e by (simp add: ulp_def max_def)
  have "roundEven (x / p2 (e - 52)) = m" using m by (rule roundEven_near)
  then show ?thesis
    using r by (simp add: rnd_def u Let_def mult.commute)
qed

lemma ulp_tiny: "x \<noteq> 0 \<Longrightarrow> \<bar>x\<bar> < p2 (- 1022) \<Longrightarrow> ulp x = p2 (- 1074)"
proof -
  assume x: "x \<noteq> 0" "\<bar>x\<bar> < p2 (- 1022)"
  have "p2 (expo x) < p2 (- 1022)" using expo_bounds [OF x(1)] x(2) by linarith
  then have "expo x < - 1022" by simp
  then show ?thesis by (simp add: ulp_def max_def)
qed

text \<open>Underflow: a non-zero real below half the least subnormal is rounded to a zero.\<close>

lemma rnd_underflow:
  assumes "x \<noteq> 0" "\<bar>x\<bar> < p2 (- 1075)"
  shows "rnd neg x = zero (x < 0)"
proof -
  have "p2 (- 1075) < p2 (- 1022)" by simp
  then have u: "ulp x = p2 (- 1074)" using assms ulp_tiny [of x] by linarith
  have h: "p2 (- 1075) = p2 (- 1074) * (1 / 2)"
    using p2_add [of "- 1074" "- 1"] by (simp add: p2_def)
  have "\<bar>x\<bar> < p2 (- 1074) * (1 / 2)" using assms(2) unfolding h .
  then have "\<bar>x\<bar> / p2 (- 1074) < 1 / 2"
    by (simp add: divide_less_eq mult.commute)
  then have "\<bar>x / p2 (- 1074)\<bar> < 1 / 2" by (simp add: abs_divide)
  then have "- (1 / 2) < x / p2 (- 1074)" "x / p2 (- 1074) < 1 / 2"
    by (simp_all only: abs_less_iff) linarith+
  then have "roundEven (x / p2 (- 1074)) = 0"
    by (intro roundEven_near) simp_all
  then show ?thesis using assms(1) by (simp add: rnd_def u)
qed

lemma lit_033:
  "lit 0.33 = Finite (5944751508129055 / 2 ^ 54)"
  "lit (33 / 100) = Finite (5944751508129055 / 2 ^ 54)"
proof -
  have "rnd False 0.33 = Finite (of_int 5944751508129055 * p2 (- 2 - 52))"
    by (rule rnd_near) (simp_all add: p2_def)
  then show "lit 0.33 = Finite (5944751508129055 / 2 ^ 54)"
    by (simp add: lit_def p2_def)
  then show "lit (33 / 100) = Finite (5944751508129055 / 2 ^ 54)" by simp
qed

lemma lit_05: "lit 0.5 = Finite (1 / 2)" "lit (1 / 2) = Finite (1 / 2)"
  using rnd_half(1) [of False] by (simp_all add: lit_def)


section \<open>The small table, evaluated\<close>

lemmas toy_defs = toyManager_def toyData_def toyGame_def toySession_def


lemma toy_emb: "getEmbedding toyManager ''dog'' = Some [Finite 1, Finite 1, Finite (- 1), Finite (- 1)]"
  by (simp add: toy_defs newPuzzleManager_def buildWordToEmbedding_def
      getEmbedding_def setEntry_def elemAt_def slotAt_def upt_rec)

lemma toy_dim: "sameDimension toyManager toyGame"
  by (simp add: sameDimension_def toy_defs)

lemma toy_cosd:
  "cosd [Finite 1, Finite 1, Finite (- 1), Finite (- 1)] [Finite 1, Finite 1, Finite 1, Finite 1] = Finite 1"
  "cosd [Finite 1, Finite 1, Finite (- 1), Finite (- 1)] [Finite (- 1), Finite (- 1), Finite (- 1), Finite (- 1)] = Finite 1"
  "cosd [Finite 1, Finite 1, Finite (- 1), Finite (- 1)] [Finite 1, Finite 1, Finite (- 1), Finite (- 1)] = Finite 0"
  "cosd [Finite 1, Finite 1, Finite (- 1), Finite (- 1)] [Finite 1, Finite 1, Finite 1, Finite (- 1)] = Finite (1 / 2)"
  "cosd [Finite 1, Finite 1, Finite 1, Finite 1] [Finite (- 1), Finite (- 1), Finite (- 1), Finite (- 1)] = Finite 2"
  "cosd [Finite 1, Finite 1, Finite 1, Finite 1] [Finite 1, Finite 1, Finite 1, Finite 1] = Finite 0"
  "cosd [Finite 1, Finite 1, Finite 1, Finite 1] [Finite 1, Finite 1, Finite (- 1), Finite (- 1)] = Finite 1"
  "cosd [Finite 1, Finite 1, Finite 1, Finite 1] [Finite 1, Finite 1, Finite 1, Finite (- 1)] = Finite (1 / 2)"
  by (simp_all add: cosd_def fmag_def fdot_def double_ops)


lemma toy_thresholds:
  "dmul (lit 0.33) (Finite 1) = Finite (5944751508129055 / 2 ^ 54)"
  "dmul (lit 0.5) (Finite 1) = Finite (1 / 2)"
  "dmul (lit (33 / 100)) (Finite 1) = Finite (5944751508129055 / 2 ^ 54)"
  "dmul (lit (1 / 2)) (Finite 1) = Finite (1 / 2)"
proof -
  have "rnd False (5944751508129055 / 2 ^ 54) = Finite (5944751508129055 / 2 ^ 54)"
    using rnd_exact [of "5944751508129055 / 2 ^ 54" 5944751508129055 "- 54" False]
    by (simp add: p2_def)
  then show "dmul (lit (33 / 100)) (Finite 1) = Finite (5944751508129055 / 2 ^ 54)"
    by (simp add: lit_033 dmul_def isZero_def)
  then show "dmul (lit 0.33) (Finite 1) = Finite (5944751508129055 / 2 ^ 54)" by simp
  show "dmul (lit (1 / 2)) (Finite 1) = Finite (1 / 2)"
    by (simp add: lit_05 dmul_def isZero_def)
  then show "dmul (lit 0.5) (Finite 1) = Finite (1 / 2)" by simp
qed

lemma toy_scores:
  "scoresOf toyData [Finite 1, Finite 1, Finite (- 1), Finite (- 1)] toyGame =
     [Some (Finite 3), Some (Finite 1), Some (Finite 1), Some (Finite 1), Some (Finite 1)]"
  by (simp add: scoresOf_def toy_defs toy_cosd) (simp add: double_ops)

lemma toy_ranking:
  "ranking toyData [Finite 1, Finite 1, Finite (- 1), Finite (- 1)] toyGame = [1, 2, 3, 4, 0]"
  by (simp add: ranking_def toy_scores sortedIndices_def jsSort_def upt_rec compareFn_def
      scoreAt_def slotAt_def elemAt_def double_ops)

lemma toy_excluded:
  "excluded toyGame ''cat''" "excluded toyGame ''dog''"
  "\<not> excluded toyGame ''kitten''" "\<not> excluded toyGame ''lion''" "\<not> excluded toyGame ''car''"
  unfolding excluded_code [symmetric]
  by (simp_all add: basicInvalid_def substringCheck_def wordsToCheck_def toy_defs)

lemma toy_far:
  "farFromGuesses toyManager toyGame (Finite 1) h \<longleftrightarrow>
     dge (cosd [Finite 1, Finite 1, Finite (- 1), Finite (- 1)] h) (Finite (1 / 2))"
  using toy_emb by (simp add: farFromGuesses_def toyGame_def toySession_def toy_thresholds)

lemma toy_table:
  "hint_vocabulary (puzzleData toyManager) = [''car'', ''cat'', ''dog'', ''lion'', ''kitten'']"
  "length (hint_embeddings (puzzleData toyManager)) = 5"
  "slotAt (hint_embeddings (puzzleData toyManager)) 3 = Some [Finite 1, Finite 1, Finite 1, Finite 1]"
  "slotAt (hint_embeddings (puzzleData toyManager)) 4 = Some [Finite 1, Finite 1, Finite 1, Finite (- 1)]"
  "targetEmbedding toyGame = [Finite 1, Finite 1, Finite 1, Finite 1]"
  by (simp_all add: toy_defs slotAt_def elemAt_def)

lemma toy_constrained:
  "\<not> constrained toyManager toyGame (Finite 1) 1"
  "\<not> constrained toyManager toyGame (Finite 1) 2"
  "\<not> constrained toyManager toyGame (Finite 1) 3"
  "constrained toyManager toyGame (Finite 1) 4"
  using toy_excluded
  by (simp_all add: constrained_def candidate_def toy_table toy_far toy_thresholds toy_cosd
      dge_def dlt_def deq_def)

lemma toy_find: "findHint toyManager ''dog'' toyGame = Inr ''kitten''"
proof -
  have te: "cosd [Finite 1, Finite 1, Finite (- 1), Finite (- 1)] (targetEmbedding toyGame) = Finite 1"
    by (simp add: toyGame_def toySession_def toy_cosd)
  have f: "List.find (constrained (newPuzzleManager toyData) toyGame (Finite 1)) [1, 2, 3, 4, 0] = Some 4"
    using toy_constrained by (simp add: toyManager_def)
  have "findHint (newPuzzleManager toyData) ''dog'' toyGame = Inr (hint_vocabulary toyData ! 4)"
    by (simp only: findHint_eq [OF toy_emb [unfolded toyManager_def] toy_dim [unfolded toyManager_def]]
        te toy_ranking f option.case)
  then show ?thesis by (simp add: toyManager_def toyData_def)
qed


section \<open>Exclusions\<close>

lemma firstPassBody_Some_D:
  "firstPassBody pm gs a b c idx = Inr (Some w) \<Longrightarrow> \<not> excluded gs w"
  unfolding excluded_code [symmetric]
  by (auto simp: firstPassBody_def split: option.splits if_splits sum.splits)

lemma fallbackBody_Some_D:
  "fallbackBody pm gs idx = Inr (Some w) \<Longrightarrow> \<not> excluded gs w"
  by (auto simp: fallbackBody_eq split: if_splits)

lemma not_excluded_D:
  "\<not> excluded gs w \<Longrightarrow>
   w \<noteq> targetWord gs \<and> w \<notin> set (guessesHistory gs) \<and> w \<notin> set (usedHints gs) \<and>
   (\<forall>x \<in> {targetWord gs} \<union> set (guessesHistory gs) \<union> set (usedHints gs). \<not> collision w x)"
  by (auto simp: excluded_def list_ex_iff)

lemma fallback_exhausted:
  assumes "walk (fallbackBody pm gs) (sortedIndices scores) = Inr None"
    and "length scores = length (hint_embeddings (puzzleData pm))"
  shows "\<not> candidate pm gs idx"
proof
  assume c: "candidate pm gs idx"
  then have "idx \<in> set (sortedIndices scores)"
    using assms(2) by (simp add: sortedIndices_set candidate_def)
  from walk_None_D [OF assms(1) this] c show False
    by (simp add: fallbackBody_candidate candidate_def)
qed

text \<open>
  C2, as the code has it: a word returned by \<open>findHint\<close> is not the target, not in the
  history, not among the used hints and free of substring collisions with all of them,
  unless it is the sentinel \<open>unknown\<close>, which is returned when the guess has no embedding
  or when no ranked vocabulary word passes the exclusions.
\<close>

theorem findHint_exclusions:
  assumes "findHint pm guess gs = Inr w"
  shows "(w \<noteq> targetWord gs \<and> w \<notin> set (guessesHistory gs) \<and> w \<notin> set (usedHints gs) \<and>
          (\<forall>x \<in> {targetWord gs} \<union> set (guessesHistory gs) \<union> set (usedHints gs).
             \<not> collision w x)) \<or>
         (w = ''unknown'' \<and>
          (getEmbedding pm guess = None \<or> (\<forall>idx. \<not> candidate pm gs idx)))"
proof (cases "getEmbedding pm guess")
  case None
  then show ?thesis using assms by (simp add: findHint_def)
next
  case (Some ge)
  from assms Some obtain scores D where
    sc: "mapSparse (collinearityScore ge (targetEmbedding gs)) (hint_embeddings (puzzleData pm)) =
           Inr scores"
    and r: "(case walk (firstPassBody pm gs (dmul (lit 0.33) D) (dmul (lit 0.5) D)
                          (allGuessesEmbeddings pm gs))
                  (sortedIndices scores) of
              Inl e \<Rightarrow> Inl e
            | Inr (Some hintWord) \<Rightarrow> Inr hintWord
            | Inr None \<Rightarrow>
                (case walk (fallbackBody pm gs) (sortedIndices scores) of
                   Inl e \<Rightarrow> Inl e
                 | Inr (Some hintWord) \<Rightarrow> Inr hintWord
                 | Inr None \<Rightarrow> Inr ''unknown'')) = Inr w"
    unfolding findHint_def by (auto split: sum.splits)
  show ?thesis
  proof (cases "walk (firstPassBody pm gs (dmul (lit 0.33) D) (dmul (lit 0.5) D)
                        (allGuessesEmbeddings pm gs))
                  (sortedIndices scores)")
    case (Inl e)
    then show ?thesis using r by simp
  next
    case (Inr res)
    note firstWalk = this
    show ?thesis
    proof (cases res)
      case (Some w')
      then have "w' = w" using r Inr by simp
      with Some Inr walk_Some_D firstPassBody_Some_D have "\<not> excluded gs w"
        by blast
      then show ?thesis using not_excluded_D by blast
    next
      case None
      note first = this
      show ?thesis
      proof (cases "walk (fallbackBody pm gs) (sortedIndices scores)")
        case (Inl e)
        then show ?thesis using r Inr first by simp
      next
        case (Inr res2)
        note second = this
        show ?thesis
        proof (cases res2)
          case (Some w')
          then have "w' = w" using r firstWalk first second by simp
          with Some second walk_Some_D fallbackBody_Some_D have "\<not> excluded gs w"
            by blast
          then show ?thesis using not_excluded_D by blast
        next
          case None
          then have "w = ''unknown''"
            using r firstWalk first second by simp
          moreover have "\<forall>idx. \<not> candidate pm gs idx"
            using fallback_exhausted [of pm gs scores] second None mapSparse_length [OF sc] by simp
          ultimately show ?thesis by simp
        qed
      qed
    qed
  qed
qed

theorem findHint_exclusions_witness:
  "findHint toyManager ''dog'' toyGame = Inr ''kitten'' \<and>
   ''kitten'' \<noteq> targetWord toyGame \<and> ''kitten'' \<notin> set (guessesHistory toyGame) \<and>
   ''kitten'' \<notin> set (usedHints toyGame) \<and>
   \<not> collision ''kitten'' ''cat'' \<and> \<not> collision ''kitten'' ''dog''"
  using findHint_exclusions [OF toy_find] toy_find by (simp add: toy_defs)

lemmas two_defs = twoManager_def twoData_def twoGame_def twoSession_def

lemma two_emb: "getEmbedding twoManager ''dog'' = Some [Finite 0, Finite 1]"
  by (simp add: two_defs newPuzzleManager_def buildWordToEmbedding_def
      getEmbedding_def setEntry_def elemAt_def slotAt_def upt_rec)

lemma two_dim: "sameDimension twoManager twoGame" "sameDimension twoManager twoSession"
  by (simp_all add: sameDimension_def two_defs)

lemma two_cosd:
  "cosd [Finite 0, Finite 1] [Finite 1, Finite 0] = Finite 1"
  "cosd [Finite 0, Finite 1] [Finite 0, Finite 1] = Finite 0"
  "cosd [Finite 1, Finite 0] [Finite 1, Finite 0] = Finite 0"
  "cosd [Finite 1, Finite 0] [Finite 0, Finite 1] = Finite 1"
  by (simp_all add: cosd_def fmag_def fdot_def double_ops)

lemma two_ranking: "ranking twoData [Finite 0, Finite 1] twoGame = [0, 1]"
  by (simp add: ranking_def scoresOf_def two_defs two_cosd sortedIndices_def jsSort_def upt_rec
      compareFn_def scoreAt_def slotAt_def elemAt_def double_ops)

lemma two_excluded: "excluded twoGame ''cat''" "excluded twoGame ''dog''"
  by (simp_all add: excluded_def two_defs)

lemma two_candidate:
  "\<not> candidate twoManager twoGame 0" "\<not> candidate twoManager twoGame 1"
  using two_excluded by (simp_all add: candidate_def) (simp_all add: two_defs)

text \<open>
  C2 as stated fails on the sentinel: once \<open>unknown\<close> has been given as a hint and
  recorded, an exhausted search returns it again.
\<close>

theorem findHint_repeats_sentinel_counterexample:
  "findHint twoManager ''dog'' twoGame = Inr ''unknown'' \<and>
   ''unknown'' \<in> set (usedHints twoGame)"
proof -
  have c: "List.find (candidate (newPuzzleManager twoData) twoGame) [0, 1] = None"
    using two_candidate by (simp add: twoManager_def)
  have f: "List.find (constrained (newPuzzleManager twoData) twoGame D) [0, 1] = None" for D
    using two_candidate by (simp add: twoManager_def constrained_def)
  have "findHint (newPuzzleManager twoData) ''dog'' twoGame = Inr ''unknown''"
    by (simp only: findHint_eq [OF two_emb [unfolded twoManager_def] two_dim(1) [unfolded twoManager_def]]
        two_ranking f c option.case)
  then show ?thesis by (simp add: twoManager_def twoGame_def)
qed

section \<open>The two passes\<close>

lemma constrained_ranked:
  "constrained (newPuzzleManager pd) gs D idx \<Longrightarrow> idx \<in> set (ranking pd ge gs)"
  by (simp add: ranking_def sortedIndices_set constrained_def candidate_def scoresOf_def)


text \<open>
  C3: on a table of one dimension and for a guess that has an embedding, the distance
  \<open>D\<close> of the guess from the target is defined and \<open>findHint\<close> returns; if some vocabulary
  index is not excluded, is at least \<open>0.33 \<times> D\<close> from the target and at least
  \<open>0.5 \<times> D\<close> from the embedding of every guess of the history, the returned word
  belongs to such an index; and the first loop ends without a word (so that the
  fallback loop runs) exactly when there is no such index.
\<close>

theorem findHint_prefers_constrained:
  assumes emb: "getEmbedding (newPuzzleManager pd) guess = Some ge"
    and dim: "sameDimension (newPuzzleManager pd) gs"
  shows "\<exists>scores D.
           mapSparse (collinearityScore ge (targetEmbedding gs)) (hint_embeddings pd) = Inr scores \<and>
           cosineDistance ge (targetEmbedding gs) = Inr D \<and>
           ((\<exists>idx. constrained (newPuzzleManager pd) gs D idx) \<longrightarrow>
              (\<exists>i. findHint (newPuzzleManager pd) guess gs = Inr (hint_vocabulary pd ! i) \<and>
                   constrained (newPuzzleManager pd) gs D i)) \<and>
           (walk (firstPassBody (newPuzzleManager pd) gs (dmul (lit 0.33) D) (dmul (lit 0.5) D)
                    (allGuessesEmbeddings (newPuzzleManager pd) gs))
              (sortedIndices scores) = Inr None
            \<longleftrightarrow> \<not> (\<exists>idx. constrained (newPuzzleManager pd) gs D idx))"
proof -
  let ?pm = "newPuzzleManager pd"
  let ?te = "targetEmbedding gs"
  let ?D = "cosd ge ?te"
  let ?scores = "scoresOf pd ge gs"
  have lge: "length ge = length ?te"
    using getEmbedding_in_table [OF emb] sameDimension_D [OF dim] by simp
  have sc: "mapSparse (collinearityScore ge ?te) (hint_embeddings pd) = Inr ?scores"
    by (rule collinearityScores_eq [OF dim lge])
  have D: "cosineDistance ge ?te = Inr ?D"
    using lge by (simp add: cosineDistance_eq)
  have w1: "walk (firstPassBody ?pm gs (dmul (lit 0.33) ?D) (dmul (lit 0.5) ?D)
                (allGuessesEmbeddings ?pm gs))
              (sortedIndices ?scores) =
            Inr (map_option (\<lambda>i. hint_vocabulary pd ! i)
                  (List.find (constrained ?pm gs ?D) (ranking pd ge gs)))"
    unfolding ranking_def
    by (rule walk_find) (rule firstPassBody_constrained [OF dim])
  have a: "\<exists>i. findHint ?pm guess gs = Inr (hint_vocabulary pd ! i) \<and> constrained ?pm gs ?D i"
    if "constrained ?pm gs ?D idx" for idx
  proof (cases "List.find (constrained ?pm gs ?D) (ranking pd ge gs)")
    case None
    from find_None_D [OF None constrained_ranked [OF that]] that show ?thesis by simp
  next
    case (Some i)
    then have "findHint ?pm guess gs = Inr (hint_vocabulary pd ! i)"
      by (simp add: findHint_eq [OF emb dim])
    with find_Some_D [OF Some] show ?thesis by blast
  qed
  have b: "walk (firstPassBody ?pm gs (dmul (lit 0.33) ?D) (dmul (lit 0.5) ?D)
                (allGuessesEmbeddings ?pm gs))
              (sortedIndices ?scores) = Inr None
           \<longleftrightarrow> \<not> (\<exists>idx. constrained ?pm gs ?D idx)"
  proof (cases "List.find (constrained ?pm gs ?D) (ranking pd ge gs)")
    case None
    then have "\<not> constrained ?pm gs ?D idx" for idx
      using find_None_D [OF None] constrained_ranked [of pd gs ?D idx ge] by blast
    then show ?thesis by (simp only: w1 None) simp
  next
    case (Some i)
    with find_Some_D [OF Some] show ?thesis by (simp only: w1 Some) auto
  qed
  from sc D a b show ?thesis by blast
qed

theorem findHint_prefers_constrained_witness:
  "getEmbedding (newPuzzleManager toyData) ''dog'' =
     Some [Finite 1, Finite 1, Finite (- 1), Finite (- 1)] \<and>
   sameDimension (newPuzzleManager toyData) toyGame \<and>
   constrained (newPuzzleManager toyData) toyGame (Finite 1) 4 \<and>
   (\<exists>i. findHint (newPuzzleManager toyData) ''dog'' toyGame = Inr (hint_vocabulary toyData ! i) \<and>
        constrained (newPuzzleManager toyData) toyGame (Finite 1) i)"
proof -
  note emb = toy_emb [unfolded toyManager_def]
  note dim = toy_dim [unfolded toyManager_def]
  note c4 = toy_constrained(4) [unfolded toyManager_def]
  from findHint_prefers_constrained [OF emb dim] obtain scores D where
    D: "cosineDistance [Finite 1, Finite 1, Finite (- 1), Finite (- 1)] (targetEmbedding toyGame) = Inr D"
    and imp: "(\<exists>idx. constrained (newPuzzleManager toyData) toyGame D idx) \<longrightarrow>
      (\<exists>i. findHint (newPuzzleManager toyData) ''dog'' toyGame = Inr (hint_vocabulary toyData ! i) \<and>
           constrained (newPuzzleManager toyData) toyGame D i)"
    by blast
  have "D = Finite 1"
    using D by (simp add: cosineDistance_Inr_iff toyGame_def toySession_def toy_cosd)
  with imp c4 emb dim show ?thesis by blast
qed




section \<open>The fallback pass on a sparse table\<close>

lemmas sparse_defs = sparseManager_def sparseData_def twoSession_def

lemma sparse_emb: "getEmbedding sparseManager ''dog'' = Some [Finite 0, Finite 1]"
  by (simp add: sparse_defs newPuzzleManager_def buildWordToEmbedding_def
      getEmbedding_def setEntry_def elemAt_def slotAt_def upt_rec)

lemma sparse_owl: "getEmbedding sparseManager ''owl'' = None"
  by (simp add: sparse_defs newPuzzleManager_def buildWordToEmbedding_def
      getEmbedding_def setEntry_def elemAt_def slotAt_def upt_rec)

lemma sparse_dim: "sameDimension sparseManager twoSession"
  by (simp add: sameDimension_def sparse_defs)

lemma sparse_ranking: "ranking sparseData [Finite 0, Finite 1] twoSession = [0, 1, 2]"
  by (simp add: ranking_def scoresOf_def sparse_defs two_cosd sortedIndices_def jsSort_def upt_rec
      compareFn_def scoreAt_def slotAt_def elemAt_def double_ops)

lemma sparse_excluded:
  "excluded twoSession ''cat''" "excluded twoSession ''dog''" "\<not> excluded twoSession ''owl''"
  unfolding excluded_code [symmetric]
  by (simp_all add: basicInvalid_def substringCheck_def wordsToCheck_def twoSession_def)

lemma sparse_candidate:
  "\<not> candidate sparseManager twoSession 0" "\<not> candidate sparseManager twoSession 1"
  "candidate sparseManager twoSession 2"
  using sparse_excluded by (simp_all add: candidate_def) (simp_all add: sparse_defs)

lemma sparse_constrained:
  "\<not> constrained sparseManager twoSession D 0" "\<not> constrained sparseManager twoSession D 1"
  "\<not> constrained sparseManager twoSession D 2"
  using sparse_candidate(1,2)
  by (simp_all add: constrained_def) (simp add: sparse_defs slotAt_def elemAt_def)

text \<open>
  C10: the third word of this table has a hole for its embedding. The constructor stores
  no embedding for it, the first loop passes over its index and the fallback loop returns
  it.
\<close>

theorem fallback_returns_unembedded:
  "elemAt (hint_vocabulary sparseData) 2 = Some ''owl'' \<and>
   slotAt (hint_embeddings sparseData) 2 = None \<and>
   getEmbedding sparseManager ''owl'' = None \<and>
   firstPassBody sparseManager twoSession min_dist_from_target min_dist_from_guesses guessEmbs 2 =
     Inr None \<and>
   fallbackBody sparseManager twoSession 2 = Inr (Some ''owl'') \<and>
   findHint sparseManager ''dog'' twoSession = Inr ''owl''"
proof -
  have f: "List.find (constrained (newPuzzleManager sparseData) twoSession D) [0, 1, 2] = None" for D
    using sparse_constrained by (simp add: sparseManager_def)
  have c: "List.find (candidate (newPuzzleManager sparseData) twoSession) [0, 1, 2] = Some 2"
    using sparse_candidate by (simp add: sparseManager_def)
  have "findHint (newPuzzleManager sparseData) ''dog'' twoSession =
      Inr (hint_vocabulary sparseData ! 2)"
    by (simp only: findHint_eq [OF sparse_emb [unfolded sparseManager_def]
          sparse_dim [unfolded sparseManager_def]] sparse_ranking f c option.case)
  then have fh: "findHint sparseManager ''dog'' twoSession = Inr ''owl''"
    by (simp add: sparseManager_def sparseData_def)
  have fp: "firstPassBody sparseManager twoSession min_dist_from_target min_dist_from_guesses
      guessEmbs 2 = Inr None"
    by (simp add: firstPassBody_def sparseManager_def sparseData_def slotAt_def elemAt_def)
  have fb: "fallbackBody sparseManager twoSession 2 = Inr (Some ''owl'')"
    using sparse_excluded(3)
    by (simp add: fallbackBody_eq) (simp add: sparseManager_def sparseData_def)
  show ?thesis
    using fh fp fb sparse_owl by (simp add: sparseData_def slotAt_def elemAt_def)
qed


section \<open>\<open>cosineDistance\<close> on three ones\<close>

lemma sqrt3_bounds:
  "7800463371553962 - 1 / 2 < sqrt 3 * 2 ^ 52" "sqrt 3 * 2 ^ 52 < 7800463371553962 + 1 / 2"
proof -
  have "((7800463371553962 - 1 / 2) / 2 ^ 52)\<^sup>2 < (3::real)" by (simp add: power2_eq_square)
  then have "(7800463371553962 - 1 / 2) / 2 ^ 52 < sqrt 3" by (rule real_less_rsqrt)
  then show "7800463371553962 - 1 / 2 < sqrt 3 * 2 ^ 52" by (simp add: divide_less_eq)
  have "(3::real) < ((7800463371553962 + 1 / 2) / 2 ^ 52)\<^sup>2" by (simp add: power2_eq_square)
  then have "sqrt 3 < (7800463371553962 + 1 / 2) / 2 ^ 52"
    by (intro real_less_lsqrt) simp_all
  then show "sqrt 3 * 2 ^ 52 < 7800463371553962 + 1 / 2" by (simp add: less_divide_eq)
qed

lemma rnd_sqrt3: "rnd False (sqrt 3) = Finite (7800463371553962 / 2 ^ 52)"
proof -
  have one: "1 \<le> sqrt 3" by simp
  have two: "sqrt 3 < 2" by (rule real_less_lsqrt) simp_all
  have "rnd False (sqrt 3) = Finite (of_int 7800463371553962 * p2 (0 - 52))"
    using sqrt3_bounds one two by (intro rnd_near) (simp_all add: p2_def)
  then show ?thesis by (simp add: p2_def)
qed

lemma rnd_sqrt3_squared:
  "rnd False (7800463371553962 / 2 ^ 52 * (7800463371553962 / 2 ^ 52)) =
   Finite (6755399441055743 / 2 ^ 51)"
proof -
  have "rnd False (7800463371553962 / 2 ^ 52 * (7800463371553962 / 2 ^ 52)) =
        Finite (of_int 6755399441055743 * p2 (1 - 52))"
    by (rule rnd_near) (simp_all add: p2_def)
  then show ?thesis by (simp add: p2_def)
qed

lemma rnd_quotient:
  "rnd False (3 / (6755399441055743 / 2 ^ 51)) = Finite (4503599627370497 / 2 ^ 52)"
proof -
  have "rnd False (3 / (6755399441055743 / 2 ^ 51)) =
        Finite (of_int 4503599627370497 * p2 (0 - 52))"
    by (rule rnd_near) (simp_all add: p2_def)
  then show ?thesis by (simp add: p2_def)
qed

lemma rnd_difference:
  "rnd False (1 - 4503599627370497 / 2 ^ 52) = Finite (- (1 / 2 ^ 52))"
  using rnd_exact [of "- (1 / 2 ^ 52)" "- 1" "- 52" False] by (simp add: p2_def)

lemma ones_fdot: "fdot [Finite 1, Finite 1, Finite 1] [Finite 1, Finite 1, Finite 1] = Finite 3"
  by (simp add: fdot_def double_ops)

lemma ones_fmag: "fmag [Finite 1, Finite 1, Finite 1] = Finite (7800463371553962 / 2 ^ 52)"
  by (simp only: fmag_def ones_fdot dsqrt_def double.case rnd_sqrt3) simp

lemma ones_cosd:
  "cosd [Finite 1, Finite 1, Finite 1] [Finite 1, Finite 1, Finite 1] = Finite (- (1 / 2 ^ 52))"
proof -
  let ?r = "Finite (7800463371553962 / 2 ^ 52)"
  have z: "\<not> deq ?r (Finite 0)" by (simp add: deq_def)
  have m: "dmul ?r ?r = Finite (6755399441055743 / 2 ^ 51)"
    using rnd_sqrt3_squared by (simp add: dmul_def isZero_def)
  have d: "ddiv (Finite 3) (Finite (6755399441055743 / 2 ^ 51)) = Finite (4503599627370497 / 2 ^ 52)"
    using rnd_quotient by (simp add: ddiv_def isZero_def)
  have s: "dsub (Finite 1) (Finite (4503599627370497 / 2 ^ 52)) = Finite (- (1 / 2 ^ 52))"
    using rnd_difference by (simp add: dsub_def dadd_def dneg_def)
  show ?thesis
    by (simp only: cosd_def ones_fmag ones_fdot z m d s simp_thms if_False)
qed


section \<open>The error of one rounding\<close>

lemma expo_ge: "p2 k \<le> \<bar>x\<bar> \<Longrightarrow> k \<le> expo x"
proof -
  assume a: "p2 k \<le> \<bar>x\<bar>"
  then have "x \<noteq> 0" using p2_pos [of k] by auto
  then have "\<bar>x\<bar> < p2 (expo x + 1)" using expo_bounds by simp
  then have "p2 k < p2 (expo x + 1)" using a by linarith
  then show ?thesis by simp
qed

lemma expo_le: "x \<noteq> 0 \<Longrightarrow> \<bar>x\<bar> \<le> p2 k \<Longrightarrow> expo x \<le> k"
proof -
  assume a: "x \<noteq> 0" "\<bar>x\<bar> \<le> p2 k"
  then have "p2 (expo x) \<le> p2 k" using expo_bounds [OF a(1)] by linarith
  then show ?thesis by simp
qed

lemma p2_half: "p2 (k - 1) = p2 k / 2"
  using p2_add [of k "- 1"] by (simp add: p2_def)

lemma p2_double: "p2 (k + 1) = 2 * p2 k"
  using p2_add [of k 1] by (simp add: p2_def)

lemma p2_shift: "p2 (k - 53) = p2 k / 2 ^ 53"
  using p2_add [of k "- 53"] by (simp add: p2_def)

lemma ulp_neq_0 [simp]: "ulp x \<noteq> 0"
  using ulp_pos [of x] by linarith

text \<open>In the normal range the error of a rounding is at most \<open>2^-53\<close> of the value.\<close>

lemma rnd_rel:
  assumes lo: "p2 (- 1022) \<le> \<bar>x\<bar>" and hi: "\<bar>x\<bar> \<le> p2 1023"
  shows "\<exists>r. rnd neg x = Finite r \<and> \<bar>r - x\<bar> \<le> \<bar>x\<bar> / 2 ^ 53"
proof -
  define e where "e = expo x"
  define n where "n = roundEven (x / ulp x)"
  define r where "r = ulp x * of_int n"
  have x0: "x \<noteq> 0" using lo p2_pos [of "- 1022"] by auto
  have e: "- 1022 \<le> e" unfolding e_def using lo by (rule expo_ge)
  then have u: "ulp x = p2 (e - 52)" by (simp add: ulp_def e_def max_def)
  have "\<bar>of_int n - x / ulp x\<bar> \<le> 1 / 2" unfolding n_def by (rule roundEven_error)
  then have "ulp x * \<bar>of_int n - x / ulp x\<bar> \<le> ulp x * (1 / 2)"
    by (rule mult_left_mono) (rule less_imp_le [OF ulp_pos])
  moreover have "ulp x * \<bar>of_int n - x / ulp x\<bar> = \<bar>r - x\<bar>"
  proof -
    have "\<bar>ulp x\<bar> = ulp x" using ulp_pos [of x] by linarith
    then have "ulp x * \<bar>of_int n - x / ulp x\<bar> = \<bar>ulp x * (of_int n - x / ulp x)\<bar>"
      by (simp add: abs_mult)
    also have "ulp x * (of_int n - x / ulp x) = r - x"
      by (simp add: r_def right_diff_distrib)
    finally show ?thesis .
  qed
  moreover have "ulp x * (1 / 2) = p2 e / 2 ^ 53"
    using p2_shift [of e] p2_half [of "e - 52"] by (simp add: u)
  moreover have "p2 e / 2 ^ 53 \<le> \<bar>x\<bar> / 2 ^ 53"
    using expo_bounds [OF x0] by (simp add: e_def divide_right_mono)
  ultimately have err: "\<bar>r - x\<bar> \<le> \<bar>x\<bar> / 2 ^ 53" by linarith
  have "\<bar>x\<bar> / 2 ^ 53 < \<bar>x\<bar>" using x0 by simp
  then have nz: "r \<noteq> 0" using err by auto
  have "\<bar>r\<bar> \<le> \<bar>x\<bar> + \<bar>x\<bar> / 2 ^ 53" using err by linarith
  also have "\<dots> < 2 * \<bar>x\<bar>" using x0 by simp
  also have "\<dots> \<le> 2 * p2 1023" using hi by simp
  also have "\<dots> = p2 1024" using p2_double [of 1023] by simp
  finally have "\<bar>r\<bar> < p2 1024" .
  then have "rnd neg x = Finite r"
    using nz by (simp add: rnd_def Let_def r_def n_def)
  with err show ?thesis by blast
qed

text \<open>Rounding does not cross a power of two.\<close>

lemma rnd_bounded:
  assumes x: "\<bar>x\<bar> \<le> p2 k" and k: "- 1074 \<le> k" "k < 1024"
  shows "rnd neg x \<noteq> NaN \<and> isFinite (rnd neg x) \<and> \<bar>val (rnd neg x)\<bar> \<le> p2 k"
proof (cases "x = 0")
  case True
  then show ?thesis by (simp add: zero_def)
next
  case False
  define j where "j = max (expo x) (- 1022) - 52"
  define r where "r = p2 j * of_int (roundEven (x / p2 j))"
  have u: "ulp x = p2 j" by (simp add: ulp_def j_def)
  have "expo x \<le> k" using False x by (rule expo_le)
  then have jk: "j \<le> k" using k by (simp add: j_def)
  have "p2 k = p2 j * p2 (k - j)" using p2_add [of j "k - j"] by simp
  also have "p2 (k - j) = of_int (2 ^ nat (k - j))" using jk by (simp add: p2_nat)
  finally have pk: "p2 k = p2 j * of_int (2 ^ nat (k - j))" .
  have "x / p2 j \<le> p2 k / p2 j" using x by (simp add: divide_right_mono)
  then have "x / p2 j \<le> of_int (2 ^ nat (k - j))" by (simp add: pk)
  then have up: "roundEven (x / p2 j) \<le> 2 ^ nat (k - j)" by (rule roundEven_le)
  have "- (p2 k / p2 j) \<le> x / p2 j"
  proof -
    have "- p2 k \<le> x" using x by linarith
    then have "(- p2 k) / p2 j \<le> x / p2 j" by (intro divide_right_mono) simp_all
    then show ?thesis by simp
  qed
  then have "of_int (- (2 ^ nat (k - j))) \<le> x / p2 j" by (simp add: pk)
  then have dn: "- (2 ^ nat (k - j)) \<le> roundEven (x / p2 j)" by (rule roundEven_ge)
  have "\<bar>roundEven (x / p2 j)\<bar> \<le> 2 ^ nat (k - j)" using up dn by linarith
  then have "\<bar>real_of_int (roundEven (x / p2 j))\<bar> \<le> real_of_int (2 ^ nat (k - j))"
    by (metis of_int_abs of_int_le_iff)
  then have "p2 j * \<bar>real_of_int (roundEven (x / p2 j))\<bar> \<le> p2 j * real_of_int (2 ^ nat (k - j))"
    by (intro mult_left_mono) simp_all
  then have rb: "\<bar>r\<bar> \<le> p2 k" unfolding pk r_def by (simp add: abs_mult)
  have "p2 k < p2 1024" using k by simp
  then have "\<bar>r\<bar> < p2 1024" using rb by linarith
  then show ?thesis
    using rb by (auto simp: rnd_def Let_def u r_def [symmetric] zero_def)
qed


section \<open>The distance of a vector from itself\<close>

lemma rel_bounds:
  assumes "\<bar>r - x\<bar> \<le> \<bar>x\<bar> / 2 ^ 53" "0 < (x::real)"
  shows "(1 - 1 / 2 ^ 53) * x \<le> r" "r \<le> (1 + 1 / 2 ^ 53) * x" "0 < r"
proof -
  have a: "\<bar>x\<bar> = x" using assms(2) by linarith
  have b: "x - x / 2 ^ 53 \<le> r" "r \<le> x + x / 2 ^ 53"
    using assms(1) unfolding a by linarith+
  have c: "(1 - 1 / 2 ^ 53) * x = x - x / 2 ^ 53" "(1 + 1 / 2 ^ 53) * x = x + x / 2 ^ 53"
    by (simp_all add: left_diff_distrib distrib_right)
  show "(1 - 1 / 2 ^ 53) * x \<le> r" unfolding c by (rule b)
  show "r \<le> (1 + 1 / 2 ^ 53) * x" unfolding c by (rule b)
  have "x / 2 ^ 53 < x" using assms(2) by simp
  then show "0 < r" using b(1) by linarith
qed

lemma self_distance:
  assumes S: "fdot a a = Finite s" and lo: "p2 (- 1000) \<le> s" and hi: "s \<le> p2 1000"
  shows "cosd a a \<noteq> NaN \<and> isFinite (cosd a a) \<and> \<bar>val (cosd a a)\<bar> \<le> 1 / 2 ^ 50"
proof -
  define l :: real where "l = 1 - 1 / 2 ^ 53"
  define h :: real where "h = 1 + 1 / 2 ^ 53"
  have lh: "0 < l" "l \<le> 1" "1 / 2 \<le> l" "1 \<le> h" "h \<le> 2" "0 < h"
    by (simp_all add: l_def h_def)
  have s0: "0 < s" using lo p2_pos [of "- 1000"] by linarith
  define t where "t = sqrt s"
  have t0: "0 < t" using s0 by (simp add: t_def)
  have tt: "t * t = s" using s0 by (simp add: t_def)
  have "p2 (- 500) * p2 (- 500) = p2 (- 1000)" using p2_add [of "- 500" "- 500"] by simp
  then have "sqrt (p2 (- 1000)) = p2 (- 500)"
    by (intro real_sqrt_unique) (simp_all add: power2_eq_square)
  then have tlo: "p2 (- 500) \<le> t" using lo unfolding t_def by (metis real_sqrt_le_mono)
  have "p2 500 * p2 500 = p2 1000" using p2_add [of 500 500] by simp
  then have "sqrt (p2 1000) = p2 500"
    by (intro real_sqrt_unique) (simp_all add: power2_eq_square)
  then have thi: "t \<le> p2 500" using hi unfolding t_def by (metis real_sqrt_le_mono)
  have "p2 (- 1022) \<le> p2 (- 500)" "p2 500 \<le> p2 1023" by simp_all
  then have "p2 (- 1022) \<le> \<bar>t\<bar>" "\<bar>t\<bar> \<le> p2 1023" using tlo thi t0 by linarith+
  then obtain r where r: "rnd False t = Finite r" "\<bar>r - t\<bar> \<le> \<bar>t\<bar> / 2 ^ 53"
    using rnd_rel by blast
  have rb: "l * t \<le> r" "r \<le> h * t" "0 < r"
    using rel_bounds [OF r(2) t0] by (simp_all add: l_def h_def)
  have mag: "fmag a = Finite r" using s0 r(1) by (simp add: fmag_def S dsqrt_def t_def)
  have "(l * t) * (l * t) \<le> r * r" using rb lh t0 by (intro mult_mono) simp_all
  then have rr_lo: "l * l * s \<le> r * r" using tt by (simp add: algebra_simps)
  have "r * r \<le> (h * t) * (h * t)" using rb lh t0 by (intro mult_mono) simp_all
  then have rr_hi: "r * r \<le> h * h * s" using tt by (simp add: algebra_simps)
  have rr0: "0 < r * r" using rb(3) by simp
  have "1 / 4 * s \<le> l * l * s"
  proof -
    have "1 / 2 * (1 / 2) \<le> l * l" using lh by (intro mult_mono) simp_all
    then show ?thesis using s0 by simp
  qed
  moreover have "p2 (- 1002) = 1 / 4 * p2 (- 1000)"
    using p2_add [of "- 1000" "- 2"] by (simp add: p2_def)
  ultimately have "p2 (- 1002) \<le> r * r" using rr_lo lo by linarith
  moreover have "p2 (- 1022) \<le> p2 (- 1002)" by simp
  ultimately have n1: "p2 (- 1022) \<le> \<bar>r * r\<bar>" by linarith
  have "h * h * s \<le> 4 * s"
  proof -
    have "h * h \<le> 2 * 2" using lh by (intro mult_mono) simp_all
    then show ?thesis using s0 by simp
  qed
  moreover have "p2 1002 = 4 * p2 1000"
    using p2_add [of 1000 2] by (simp add: p2_def)
  ultimately have "r * r \<le> p2 1002" using rr_hi hi by linarith
  moreover have "p2 1002 \<le> p2 1023" by simp
  ultimately have n2: "\<bar>r * r\<bar> \<le> p2 1023" using rr0 by linarith
  obtain p where p: "rnd False (r * r) = Finite p" "\<bar>p - r * r\<bar> \<le> \<bar>r * r\<bar> / 2 ^ 53"
    using rnd_rel [OF n1 n2] by blast
  have pb: "l * (r * r) \<le> p" "p \<le> h * (r * r)" "0 < p"
    using rel_bounds [OF p(2) rr0] by (simp_all add: l_def h_def)
  have mul: "dmul (Finite r) (Finite r) = Finite p"
    using p(1) by (simp add: dmul_def isZero_def)
  have "l * (l * l * s) \<le> l * (r * r)" using rr_lo lh by (intro mult_left_mono) simp_all
  then have p_lo: "l * l * l * s \<le> p" using pb(1) by (simp add: mult.assoc)
  have "h * (r * r) \<le> h * (h * h * s)" using rr_hi lh by (intro mult_left_mono) simp_all
  then have p_hi: "p \<le> h * h * h * s" using pb(2) by (simp add: mult.assoc)
  define x where "x = s / p"
  have x0: "0 < x" using s0 pb(3) by (simp add: x_def)
  have x_hi: "x \<le> 1 / (l * l * l)"
  proof -
    have "s \<le> p / (l * l * l)" using p_lo lh by (simp add: pos_le_divide_eq mult.commute)
    then have "s / p \<le> p / (l * l * l) / p" using pb(3) by (intro divide_right_mono) simp_all
    then show ?thesis using pb(3) by (simp add: x_def)
  qed
  have x_lo: "1 / (h * h * h) \<le> x"
  proof -
    have "p / (h * h * h) \<le> s" using p_hi lh by (simp add: pos_divide_le_eq mult.commute)
    then have "p / (h * h * h) / p \<le> s / p" using pb(3) by (intro divide_right_mono) simp_all
    then show ?thesis using pb(3) by (simp add: x_def)
  qed
  have "p2 (- 1022) \<le> p2 (- 3)" "p2 3 \<le> p2 1023" by simp_all
  moreover have "p2 (- 3) \<le> 1 / (h * h * h)" "1 / (l * l * l) \<le> p2 3"
    by (simp_all add: p2_def l_def h_def)
  ultimately have n3: "p2 (- 1022) \<le> \<bar>x\<bar>" "\<bar>x\<bar> \<le> p2 1023"
    using x_lo x_hi x0 by linarith+
  obtain q where q: "rnd False x = Finite q" "\<bar>q - x\<bar> \<le> \<bar>x\<bar> / 2 ^ 53"
    using rnd_rel [OF n3] by blast
  have qb: "l * x \<le> q" "q \<le> h * x" "0 < q"
    using rel_bounds [OF q(2) x0] by (simp_all add: l_def h_def)
  have dv: "ddiv (Finite s) (Finite p) = Finite q"
    using q(1) pb(3) s0 by (simp add: ddiv_def isZero_def x_def)
  have "l * (1 / (h * h * h)) \<le> l * x" using x_lo lh by (intro mult_left_mono) simp_all
  moreover have "1 - 1 / 2 ^ 50 \<le> l * (1 / (h * h * h))" by (simp add: l_def h_def)
  ultimately have q_lo: "1 - 1 / 2 ^ 50 \<le> q" using qb(1) by linarith
  have "h * x \<le> h * (1 / (l * l * l))" using x_hi lh by (intro mult_left_mono) simp_all
  moreover have "h * (1 / (l * l * l)) \<le> 1 + 1 / 2 ^ 50" by (simp add: l_def h_def)
  ultimately have q_hi: "q \<le> 1 + 1 / 2 ^ 50" using qb(2) by linarith
  have "p2 (- 50) = 1 / 2 ^ 50" by (simp add: p2_def)
  then have "\<bar>1 - q\<bar> \<le> p2 (- 50)" using q_lo q_hi by (simp add: abs_le_iff)
  then have fin: "rnd False (1 - q) \<noteq> NaN \<and> isFinite (rnd False (1 - q)) \<and>
      \<bar>val (rnd False (1 - q))\<bar> \<le> p2 (- 50)"
    by (intro rnd_bounded) simp_all
  have sb: "dsub (Finite 1) (Finite q) = rnd False (1 - q)"
    using qb(3) by (simp add: dsub_def dadd_def dneg_def)
  have nz: "\<not> deq (Finite r) (Finite 0)" using rb(3) by (simp add: deq_def)
  have "cosd a a = rnd False (1 - q)"
    by (simp only: cosd_def mag S nz mul dv sb simp_thms if_False)
  then show ?thesis using fin \<open>p2 (- 50) = 1 / 2 ^ 50\<close> by simp
qed

lemma zero_squares:
  "list_all isZero a \<Longrightarrow> foldl (\<lambda>s x. dadd s (dmul x x)) (Finite 0) a = Finite 0"
  by (induction a) (auto simp: isZero_def dmul_def dadd_def zero_def)

lemma zero_fmag: "list_all isZero a \<Longrightarrow> fmag a = Finite 0"
  using zero_squares [of a] by (simp add: fmag_def fdot_def foldl_zip_same dsqrt_def zero_def)


section \<open>The error of the accumulated sums\<close>

text \<open>The error of a rounding that does not overflow.\<close>

lemma rnd_val:
  "isFinite (rnd neg z) \<Longrightarrow> val (rnd neg z) = ulp z * of_int (roundEven (z / ulp z))"
  by (auto simp: rnd_def Let_def infinity_def zero_def split: if_splits)

lemma rnd_err_ulp: "isFinite (rnd neg z) \<Longrightarrow> \<bar>val (rnd neg z) - z\<bar> \<le> ulp z / 2"
proof -
  assume f: "isFinite (rnd neg z)"
  define n where "n = roundEven (z / ulp z)"
  have h: "\<bar>of_int n - z / ulp z\<bar> \<le> 1 / 2" unfolding n_def by (rule roundEven_error)
  have "\<bar>ulp z\<bar> = ulp z" using ulp_pos [of z] by linarith
  then have "ulp z * \<bar>of_int n - z / ulp z\<bar> = \<bar>ulp z * (of_int n - z / ulp z)\<bar>"
    by (simp add: abs_mult)
  also have "ulp z * (of_int n - z / ulp z) = ulp z * of_int n - z"
    by (simp add: right_diff_distrib)
  finally have "\<bar>ulp z * of_int n - z\<bar> = ulp z * \<bar>of_int n - z / ulp z\<bar>" by simp
  also have "\<dots> \<le> ulp z * (1 / 2)"
    using h by (rule mult_left_mono) (rule less_imp_le [OF ulp_pos])
  finally have "\<bar>ulp z * of_int n - z\<bar> \<le> ulp z / 2" by simp
  then show ?thesis unfolding rnd_val [OF f] n_def .
qed

lemma rnd_err_normal:
  assumes "p2 (- 1022) \<le> \<bar>z\<bar>" "isFinite (rnd neg z)"
  shows "\<bar>val (rnd neg z) - z\<bar> \<le> \<bar>z\<bar> / 2 ^ 53"
proof -
  have z0: "z \<noteq> 0" using assms(1) p2_pos [of "- 1022"] by auto
  have e: "- 1022 \<le> expo z" using assms(1) by (rule expo_ge)
  then have u: "ulp z = p2 (expo z - 52)" by (simp add: ulp_def max_def)
  have "ulp z / 2 = p2 (expo z) / 2 ^ 53"
    using p2_shift [of "expo z"] p2_half [of "expo z - 52"] by (simp add: u)
  moreover have "p2 (expo z) / 2 ^ 53 \<le> \<bar>z\<bar> / 2 ^ 53"
    using expo_bounds [OF z0] by (simp add: divide_right_mono)
  ultimately show ?thesis using rnd_err_ulp [OF assms(2)] by linarith
qed

lemma rnd_err:
  assumes "isFinite (rnd neg z)"
  shows "\<bar>val (rnd neg z) - z\<bar> \<le> \<bar>z\<bar> / 2 ^ 53 + p2 (- 1075)"
proof (cases "p2 (- 1022) \<le> \<bar>z\<bar>")
  case True
  then show ?thesis using rnd_err_normal [OF True assms] p2_pos [of "- 1075"] by linarith
next
  case False
  show ?thesis
  proof (cases "z = 0")
    case True
    then show ?thesis using p2_pos [of "- 1075"] by (simp add: less_imp_le)
  next
    case nz: False
    have "ulp z = p2 (- 1074)" using nz False by (intro ulp_tiny) simp_all
    then have "ulp z / 2 = p2 (- 1075)" using p2_half [of "- 1074"] by simp
    then show ?thesis using rnd_err_ulp [OF assms] by simp
  qed
qed

text \<open>A sum of two numbers of the grid is rounded with a relative error only.\<close>

lemma dadd_finite: "isFinite (dadd a b) \<Longrightarrow> isFinite a \<and> isFinite b"
  by (cases a; cases b) (auto simp: dadd_def split: if_splits)

lemma dmul_finite: "isFinite (dmul a b) \<Longrightarrow> isFinite a \<and> isFinite b"
  by (cases a; cases b) (auto simp: dmul_def infinity_def split: if_splits)

lemma dmul_gridded: "gridded (dmul a b)"
  using rnd_gridded
  by (cases a; cases b) (auto simp: dmul_def gridded_def infinity_def intro: exI [of _ 0])

lemma isFinite_not_NaN: "isFinite a \<Longrightarrow> a \<noteq> NaN"
  by auto

lemma dadd_err:
  assumes f: "isFinite (dadd a b)" and g: "gridded a" "gridded b"
  shows "\<bar>val (dadd a b) - (val a + val b)\<bar> \<le> \<bar>val a + val b\<bar> / 2 ^ 53"
proof -
  have fa: "isFinite a" "isFinite b" using dadd_finite [OF f] by simp_all
  define z where "z = val a + val b"
  have s: "dadd a b = rnd (negative a \<and> negative b) z"
    using fa by (auto simp: dadd_def z_def)
  obtain i j where "val a = of_int i * p2 (- 1074)" "val b = of_int j * p2 (- 1074)"
    using g by (auto simp: gridded_def)
  then have zg: "z = of_int (i + j) * p2 (- 1074)" by (simp add: z_def algebra_simps)
  show ?thesis
  proof (cases "p2 (- 1022) \<le> \<bar>z\<bar>")
    case True
    then show ?thesis using rnd_err_normal [of z] f unfolding s z_def by simp
  next
    case False
    then have small: "\<bar>z\<bar> < p2 (- 1022)" by simp
    have "p2 (- 1022) = 2 ^ 52 * p2 (- 1074)"
      using p2_add [of 52 "- 1074"] by (simp add: p2_def)
    then have "\<bar>real_of_int (i + j)\<bar> * p2 (- 1074) < 2 ^ 52 * p2 (- 1074)"
      using small unfolding zg by (simp add: abs_mult)
    then have "\<bar>real_of_int (i + j)\<bar> < 2 ^ 52" by simp
    then have "\<bar>i + j\<bar> < 2 ^ 52"
      by (metis of_int_abs of_int_less_numeral_power_cancel_iff)
    then have m: "\<bar>i + j\<bar> < 2 ^ 53" by simp
    have "p2 (- 1022) < p2 1024" by simp
    then have big: "\<bar>z\<bar> < p2 1024" using small by linarith
    have "val (rnd (negative a \<and> negative b) z) = z"
      using rnd_exact [OF zg m _ big, of "negative a \<and> negative b"] by (simp add: zero_def)
    then show ?thesis unfolding s z_def by simp
  qed
qed

lemma dmul_err:
  assumes f: "isFinite (dmul a b)"
  shows "\<bar>val (dmul a b) - val a * val b\<bar> \<le> \<bar>val a * val b\<bar> / 2 ^ 53 + p2 (- 1075)"
proof -
  have fa: "isFinite a" "isFinite b" using dmul_finite [OF f] by simp_all
  then have s: "dmul a b = rnd (negative a \<noteq> negative b) (val a * val b)"
    by (cases a; cases b) (auto simp: dmul_def isZero_def)
  show ?thesis using rnd_err [of "negative a \<noteq> negative b" "val a * val b"] f unfolding s by simp
qed


text \<open>A sum accumulated from the left: finiteness and error.\<close>

lemma foldl_dadd_finite:
  "isFinite (foldl dadd acc ts) \<Longrightarrow> isFinite acc \<and> list_all isFinite ts"
proof (induction ts arbitrary: acc)
  case Nil
  then show ?case by simp
next
  case (Cons t ts)
  then have "isFinite (dadd acc t) \<and> list_all isFinite ts" by simp
  then show ?case using dadd_finite [of acc t] by simp
qed

lemma growth_step:
  fixes g w S :: real
  assumes "0 \<le> g" "0 \<le> S"
  shows "g * ((1 + 1 / 2 ^ 53) * w + S) + 1 / 2 ^ 53 * w \<le> ((1 + 1 / 2 ^ 53) * (g + 1) - 1) * (w + S)"
proof -
  have "((1 + 1 / 2 ^ 53) * (g + 1) - 1) * (w + S) -
        (g * ((1 + 1 / 2 ^ 53) * w + S) + 1 / 2 ^ 53 * w) = (g + 1) * (1 / 2 ^ 53) * S"
    by (simp add: algebra_simps)
  moreover have "0 \<le> (g + 1) * (1 / 2 ^ 53) * S" using assms by simp
  ultimately show ?thesis by linarith
qed

lemma foldl_dadd_err:
  assumes "isFinite (foldl dadd acc ts)" "gridded acc" "list_all gridded ts"
  shows "\<bar>val (foldl dadd acc ts) - (val acc + sum_list (map val ts))\<bar> \<le>
         ((1 + 1 / 2 ^ 53) ^ length ts - 1) * (\<bar>val acc\<bar> + sum_list (map (\<lambda>t. \<bar>val t\<bar>) ts))"
  using assms
proof (induction ts arbitrary: acc)
  case Nil
  then show ?case by simp
next
  case (Cons t ts)
  define a' where "a' = dadd acc t"
  define g :: real where "g = (1 + 1 / 2 ^ 53) ^ length ts - 1"
  define S where "S = sum_list (map (\<lambda>t. \<bar>val t\<bar>) ts)"
  define w where "w = \<bar>val acc\<bar> + \<bar>val t\<bar>"
  have F: "isFinite (foldl dadd a' ts)" using Cons.prems(1) by (simp add: a'_def)
  then have fa: "isFinite a'" using foldl_dadd_finite by blast
  have ga: "gridded a'" unfolding a'_def by (rule dadd_gridded)
  have gt: "gridded t" "list_all gridded ts" using Cons.prems(3) by simp_all
  have ih: "\<bar>val (foldl dadd a' ts) - (val a' + sum_list (map val ts))\<bar> \<le> g * (\<bar>val a'\<bar> + S)"
    unfolding g_def S_def by (rule Cons.IH [OF F ga gt(2)])
  have "\<bar>val a' - (val acc + val t)\<bar> \<le> \<bar>val acc + val t\<bar> / 2 ^ 53"
    using dadd_err [OF fa [unfolded a'_def] Cons.prems(2) gt(1)] by (simp add: a'_def)
  moreover have "\<bar>val acc + val t\<bar> \<le> w" unfolding w_def by (rule abs_triangle_ineq)
  then have "\<bar>val acc + val t\<bar> / 2 ^ 53 \<le> w / 2 ^ 53" by (rule divide_right_mono) simp
  ultimately have e1: "\<bar>val a' - (val acc + val t)\<bar> \<le> 1 / 2 ^ 53 * w" by simp
  have "\<bar>val a'\<bar> \<le> \<bar>val acc + val t\<bar> + \<bar>val a' - (val acc + val t)\<bar>" by linarith
  then have "\<bar>val a'\<bar> \<le> w + 1 / 2 ^ 53 * w"
    using e1 \<open>\<bar>val acc + val t\<bar> \<le> w\<close> by linarith
  then have e2: "\<bar>val a'\<bar> \<le> (1 + 1 / 2 ^ 53) * w" by (simp add: algebra_simps)
  have g0: "0 \<le> g" unfolding g_def by (simp add: one_le_power)
  have S0: "0 \<le> S" unfolding S_def by (rule sum_list_nonneg) auto
  have "g * (\<bar>val a'\<bar> + S) \<le> g * ((1 + 1 / 2 ^ 53) * w + S)"
    using e2 g0 by (intro mult_left_mono) simp_all
  then have "\<bar>val (foldl dadd a' ts) - (val a' + sum_list (map val ts))\<bar> +
      \<bar>val a' - (val acc + val t)\<bar> \<le> g * ((1 + 1 / 2 ^ 53) * w + S) + 1 / 2 ^ 53 * w"
    using ih e1 by linarith
  also have "\<dots> \<le> ((1 + 1 / 2 ^ 53) * (g + 1) - 1) * (w + S)"
    using g0 S0 by (rule growth_step)
  finally have fin: "\<bar>val (foldl dadd a' ts) - (val acc + val t + sum_list (map val ts))\<bar> \<le>
      ((1 + 1 / 2 ^ 53) * (g + 1) - 1) * (w + S)"
    by linarith
  have eq1: "foldl dadd acc (t # ts) = foldl dadd a' ts" by (simp add: a'_def)
  have eq2: "val acc + sum_list (map val (t # ts)) = val acc + val t + sum_list (map val ts)"
    by simp
  have eq3: "\<bar>val acc\<bar> + sum_list (map (\<lambda>t. \<bar>val t\<bar>) (t # ts)) = w + S"
    by (simp add: w_def S_def)
  have eq4: "(1 + 1 / 2 ^ 53) ^ length (t # ts) - 1 = (1 + 1 / 2 ^ 53) * (g + 1) - (1::real)"
    by (simp add: g_def)
  show ?case unfolding eq1 eq2 eq3 eq4 by (rule fin)
qed


text \<open>The accumulated dot product against the dot product of the values.\<close>

lemma fdot_foldl:
  "fdot a b = foldl dadd (Finite 0) (map (\<lambda>(x, y). dmul x y) (zip a b))"
  by (simp add: fdot_def foldl_map case_prod_unfold)

lemma products_err:
  assumes "length a = length b" "list_all isFinite (map (\<lambda>(x, y). dmul x y) (zip a b))"
  shows "\<bar>sum_list (map val (map (\<lambda>(x, y). dmul x y) (zip a b))) - dot (map val a) (map val b)\<bar> \<le>
           1 / 2 ^ 53 * dot (map (\<lambda>x. \<bar>val x\<bar>) a) (map (\<lambda>y. \<bar>val y\<bar>) b) +
           real (length a) * p2 (- 1075) \<and>
         sum_list (map (\<lambda>t. \<bar>val t\<bar>) (map (\<lambda>(x, y). dmul x y) (zip a b))) \<le>
           (1 + 1 / 2 ^ 53) * dot (map (\<lambda>x. \<bar>val x\<bar>) a) (map (\<lambda>y. \<bar>val y\<bar>) b) +
           real (length a) * p2 (- 1075)"
  using assms
proof (induction a b rule: list_induct2)
  case Nil
  then show ?case by (simp add: dot_def)
next
  case (Cons x xs y ys)
  define E where "E = sum_list (map val (map (\<lambda>(x, y). dmul x y) (zip xs ys))) -
    dot (map val xs) (map val ys)"
  define T where "T = sum_list (map (\<lambda>t. \<bar>val t\<bar>) (map (\<lambda>(x, y). dmul x y) (zip xs ys)))"
  define SP where "SP = dot (map (\<lambda>x. \<bar>val x\<bar>) xs) (map (\<lambda>y. \<bar>val y\<bar>) ys)"
  define n where "n = real (length xs)"
  define m where "m = \<bar>val x * val y\<bar>"
  have ih: "\<bar>E\<bar> \<le> 1 / 2 ^ 53 * SP + n * p2 (- 1075)" "T \<le> (1 + 1 / 2 ^ 53) * SP + n * p2 (- 1075)"
    using Cons unfolding E_def T_def SP_def n_def by simp_all
  have f: "isFinite (dmul x y)" using Cons.prems by simp
  have e: "\<bar>val (dmul x y) - val x * val y\<bar> \<le> m / 2 ^ 53 + p2 (- 1075)"
    unfolding m_def by (rule dmul_err [OF f])
  have "\<bar>val (dmul x y)\<bar> \<le> \<bar>val x * val y\<bar> + \<bar>val (dmul x y) - val x * val y\<bar>" by linarith
  then have t: "\<bar>val (dmul x y)\<bar> \<le> m + m / 2 ^ 53 + p2 (- 1075)" using e unfolding m_def by linarith
  have c1: "sum_list (map val (map (\<lambda>(x, y). dmul x y) (zip (x # xs) (y # ys)))) -
      dot (map val (x # xs)) (map val (y # ys)) = (val (dmul x y) - val x * val y) + E"
    by (simp add: E_def dot_def)
  have c2: "sum_list (map (\<lambda>t. \<bar>val t\<bar>) (map (\<lambda>(x, y). dmul x y) (zip (x # xs) (y # ys)))) =
      \<bar>val (dmul x y)\<bar> + T"
    by (simp add: T_def)
  have c3: "dot (map (\<lambda>x. \<bar>val x\<bar>) (x # xs)) (map (\<lambda>y. \<bar>val y\<bar>) (y # ys)) = m + SP"
    by (simp add: SP_def dot_def m_def abs_mult)
  have c4: "real (length (x # xs)) = n + 1" by (simp add: n_def)
  have r1: "1 / 2 ^ 53 * (m + SP) + (n + 1) * p2 (- 1075) =
      (m / 2 ^ 53 + p2 (- 1075)) + (1 / 2 ^ 53 * SP + n * p2 (- 1075))"
    by (simp add: algebra_simps)
  have r2: "(1 + 1 / 2 ^ 53) * (m + SP) + (n + 1) * p2 (- 1075) =
      (m + m / 2 ^ 53 + p2 (- 1075)) + ((1 + 1 / 2 ^ 53) * SP + n * p2 (- 1075))"
    by (simp add: algebra_simps)
  have "\<bar>(val (dmul x y) - val x * val y) + E\<bar> \<le>
      (m / 2 ^ 53 + p2 (- 1075)) + (1 / 2 ^ 53 * SP + n * p2 (- 1075))"
    using e ih(1) by linarith
  moreover have "\<bar>val (dmul x y)\<bar> + T \<le>
      (m + m / 2 ^ 53 + p2 (- 1075)) + ((1 + 1 / 2 ^ 53) * SP + n * p2 (- 1075))"
    using t ih(2) by linarith
  ultimately show ?case unfolding c1 c2 c3 c4 r1 r2 by (rule conjI)
qed

lemma fdot_err:
  assumes len: "length a = length b" and fin: "isFinite (fdot a b)"
  shows "\<bar>val (fdot a b) - dot (map val a) (map val b)\<bar> \<le>
         ((1 + 1 / 2 ^ 53) ^ Suc (length a) - 1) * dot (map (\<lambda>x. \<bar>val x\<bar>) a) (map (\<lambda>y. \<bar>val y\<bar>) b) +
         (1 + 1 / 2 ^ 53) ^ length a * (real (length a) * p2 (- 1075))"
proof -
  define ts where "ts = map (\<lambda>(x, y). dmul x y) (zip a b)"
  define g :: real where "g = (1 + 1 / 2 ^ 53) ^ length a - 1"
  define SP where "SP = dot (map (\<lambda>x. \<bar>val x\<bar>) a) (map (\<lambda>y. \<bar>val y\<bar>) b)"
  define N where "N = real (length a) * p2 (- 1075)"
  define T where "T = sum_list (map (\<lambda>t. \<bar>val t\<bar>) ts)"
  have F: "isFinite (foldl dadd (Finite 0) ts)" using fin by (simp add: fdot_foldl ts_def)
  have lt: "length ts = length a" using len by (simp add: ts_def)
  have gr: "list_all gridded ts" by (simp add: ts_def list_all_iff dmul_gridded case_prod_unfold)
  have g0: "gridded (Finite 0)" by (auto simp: gridded_def intro: exI [of _ 0])
  have fts: "list_all isFinite ts" using foldl_dadd_finite [OF F] by simp
  have e1: "\<bar>val (fdot a b) - sum_list (map val ts)\<bar> \<le> g * T"
    using foldl_dadd_err [OF F g0 gr] by (simp add: fdot_foldl ts_def [symmetric] lt g_def T_def)
  have p: "\<bar>sum_list (map val ts) - dot (map val a) (map val b)\<bar> \<le> 1 / 2 ^ 53 * SP + N"
    "T \<le> (1 + 1 / 2 ^ 53) * SP + N"
    using products_err [OF len fts [unfolded ts_def]]
    unfolding ts_def [symmetric] SP_def [symmetric] N_def [symmetric] T_def [symmetric] by simp_all
  have gn: "0 \<le> g" unfolding g_def by (simp add: one_le_power)
  have "g * T \<le> g * ((1 + 1 / 2 ^ 53) * SP + N)" using p(2) gn by (rule mult_left_mono)
  then have "\<bar>val (fdot a b) - dot (map val a) (map val b)\<bar> \<le>
      g * ((1 + 1 / 2 ^ 53) * SP + N) + (1 / 2 ^ 53 * SP + N)"
    using e1 p(1) by linarith
  also have "\<dots> = ((1 + 1 / 2 ^ 53) * (g + 1) - 1) * SP + (g + 1) * N"
    by (simp add: algebra_simps)
  also have "(1 + 1 / 2 ^ 53) * (g + 1) - 1 = (1 + 1 / 2 ^ 53) ^ Suc (length a) - (1::real)"
    by (simp add: g_def)
  also have "g + 1 = (1 + 1 / 2 ^ 53) ^ length a" by (simp add: g_def)
  finally show ?thesis unfolding SP_def N_def .
qed

lemma power_roundoff:
  "n \<le> 2 ^ 20 \<Longrightarrow> (1 + 1 / 2 ^ 53) ^ n \<le> 1 + 2 * real n / (2 ^ 53 :: real)"
proof (induction n)
  case 0
  then show ?case by simp
next
  case (Suc n)
  define k where "k = real n"
  have k: "0 \<le> k" "k \<le> 2 ^ 20" using Suc.prems by (simp_all add: k_def)
  have "(1 + 1 / 2 ^ 53) ^ Suc n = (1 + 1 / 2 ^ 53) * (1 + 1 / 2 ^ 53) ^ n" by simp
  also have "\<dots> \<le> (1 + 1 / 2 ^ 53) * (1 + 2 * k / 2 ^ 53)"
    using Suc unfolding k_def by (intro mult_left_mono) simp_all
  also have "\<dots> \<le> 1 + 2 * (k + 1) / 2 ^ 53"
  proof -
    have "1 + 2 * (k + 1) / 2 ^ 53 - (1 + 1 / 2 ^ 53) * (1 + 2 * k / 2 ^ 53) =
        (1 - 2 * k / 2 ^ 53) / 2 ^ 53"
      by (simp add: algebra_simps)
    moreover have "0 \<le> (1 - 2 * k / 2 ^ 53) / (2 ^ 53 :: real)" using k by simp
    ultimately show ?thesis by linarith
  qed
  finally show ?case by (simp add: k_def add.commute)
qed


section \<open>The Cauchy-Schwarz inequality\<close>

lemma dot_self_nonneg: "0 \<le> dot a a"
  by (induction a) (auto simp: dot_def)

lemma cauchy_schwarz_step:
  fixes S :: real
  assumes A: "0 \<le> A" and B: "0 \<le> B" and S: "S\<^sup>2 \<le> A * B"
  shows "(S + x * y)\<^sup>2 \<le> (A + x * x) * (B + y * y)"
proof -
  have nn: "0 \<le> A * y\<^sup>2 + B * x\<^sup>2" using A B by simp
  have "(2 * S * x * y)\<^sup>2 = 4 * (x\<^sup>2 * y\<^sup>2) * S\<^sup>2"
    by (simp add: power2_eq_square)
  also have "\<dots> \<le> 4 * (x\<^sup>2 * y\<^sup>2) * (A * B)"
    using S by (intro mult_left_mono) simp_all
  also have "\<dots> \<le> (A * y\<^sup>2 + B * x\<^sup>2)\<^sup>2"
  proof -
    have "0 \<le> (A * y\<^sup>2 - B * x\<^sup>2)\<^sup>2" by simp
    then show ?thesis by (simp add: power2_eq_square algebra_simps)
  qed
  finally have "2 * S * x * y \<le> A * y\<^sup>2 + B * x\<^sup>2"
    using nn by (rule_tac power2_le_imp_le)
  then show ?thesis
    using S by (simp add: power2_eq_square algebra_simps)
qed

lemma dot_square_le:
  "length a = length b \<Longrightarrow> (dot a b)\<^sup>2 \<le> dot a a * dot b b"
proof (induction a b rule: list_induct2)
  case Nil
  then show ?case by (simp add: dot_def)
next
  case (Cons x xs y ys)
  have "(dot xs ys + x * y)\<^sup>2 \<le> (dot xs xs + x * x) * (dot ys ys + y * y)"
    using Cons.IH by (intro cauchy_schwarz_step dot_self_nonneg)
  then show ?case by (simp add: dot_def algebra_simps)
qed

lemma abs_dot_le:
  assumes "length a = length b"
  shows "\<bar>dot a b\<bar> \<le> magnitude a * magnitude b"
proof -
  have "\<bar>dot a b\<bar> = sqrt ((dot a b)\<^sup>2)" by simp
  also have "\<dots> \<le> sqrt (dot a a * dot b b)"
    using dot_square_le [OF assms] by (simp only: real_sqrt_le_iff)
  also have "\<dots> = magnitude a * magnitude b"
    by (simp add: magnitude_def real_sqrt_mult)
  finally show ?thesis .
qed

lemma dot_abs_self: "dot (map (\<lambda>x. \<bar>val x\<bar>) a) (map (\<lambda>x. \<bar>val x\<bar>) a) = dot (map val a) (map val a)"
  by (induction a) (simp_all add: dot_def)

lemma magnitude_abs: "magnitude (map (\<lambda>x. \<bar>val x\<bar>) a) = magnitude (map val a)"
  by (simp add: magnitude_def dot_abs_self)

lemma dot_abs_le:
  "length a = length b \<Longrightarrow>
   dot (map (\<lambda>x. \<bar>val x\<bar>) a) (map (\<lambda>y. \<bar>val y\<bar>) b) \<le> magnitude (map val a) * magnitude (map val b)"
  using abs_dot_le [of "map (\<lambda>x. \<bar>val x\<bar>) a" "map (\<lambda>y. \<bar>val y\<bar>) b"]
  by (simp add: magnitude_abs)

section \<open>The accuracy of \<open>cosineDistance\<close>\<close>

lemma roundoff_small:
  assumes "n < 2 ^ 20"
  shows "(1 + 1 / 2 ^ 53) ^ Suc n - 1 \<le> (1::real) / 2 ^ 32"
    "(1 + 1 / 2 ^ 53) ^ n * (real n * p2 (- 1075)) \<le> p2 (- 1054)"
proof -
  have s: "real (Suc n) \<le> 2 ^ 20" using assms
    by (metis Suc_leI of_nat_le_iff of_nat_numeral of_nat_power)
  have "(1 + 1 / 2 ^ 53) ^ Suc n \<le> 1 + 2 * real (Suc n) / (2 ^ 53 :: real)"
    using assms by (intro power_roundoff) simp
  also have "\<dots> \<le> 1 + 2 * 2 ^ 20 / 2 ^ 53"
    using s by (intro add_left_mono divide_right_mono mult_left_mono) simp_all
  finally show "(1 + 1 / 2 ^ 53) ^ Suc n - 1 \<le> (1::real) / 2 ^ 32" by simp
  have n: "real n \<le> 2 ^ 20" using s by simp
  have "(1 + 1 / 2 ^ 53) ^ n \<le> 1 + 2 * real n / (2 ^ 53 :: real)"
    using assms by (intro power_roundoff) simp
  also have "\<dots> \<le> 1 + 2 * 2 ^ 20 / 2 ^ 53"
    using n by (intro add_left_mono divide_right_mono mult_left_mono) simp_all
  also have "\<dots> \<le> 2" by simp
  finally have a: "(1 + 1 / 2 ^ 53) ^ n \<le> (2::real)" .
  have "real n * p2 (- 1075) \<le> 2 ^ 20 * p2 (- 1075)"
    using n by (intro mult_right_mono) simp_all
  also have "2 ^ 20 * p2 (- 1075) = p2 (- 1055)" using p2_add [of 20 "- 1075"] by (simp add: p2_def)
  finally have b: "real n * p2 (- 1075) \<le> p2 (- 1055)" .
  have "(1 + 1 / 2 ^ 53) ^ n * (real n * p2 (- 1075)) \<le> 2 * p2 (- 1055)"
    using a b by (intro mult_mono) simp_all
  also have "2 * p2 (- 1055) = p2 (- 1054)" using p2_double [of "- 1055"] by simp
  finally show "(1 + 1 / 2 ^ 53) ^ n * (real n * p2 (- 1075)) \<le> p2 (- 1054)" .
qed

text \<open>The accumulated sum of squares against the sum of the squares.\<close>

lemma squares_err:
  assumes n: "length a < 2 ^ 20" and A: "fdot a a = Finite A" "p2 (- 1000) \<le> A"
  shows "\<bar>A - dot (map val a) (map val a)\<bar> \<le> dot (map val a) (map val a) / 2 ^ 31 \<and>
         p2 (- 1001) \<le> dot (map val a) (map val a)"
proof -
  define SA where "SA = dot (map val a) (map val a)"
  define t where "t = p2 (- 1000)"
  have S0: "0 \<le> SA" unfolding SA_def by (rule dot_self_nonneg)
  have "\<bar>val (fdot a a) - SA\<bar> \<le> ((1 + 1 / 2 ^ 53) ^ Suc (length a) - 1) * SA +
         (1 + 1 / 2 ^ 53) ^ length a * (real (length a) * p2 (- 1075))"
    using fdot_err [of a a] A(1) by (simp add: dot_abs_self SA_def)
  moreover have "((1 + 1 / 2 ^ 53) ^ Suc (length a) - 1) * SA \<le> 1 / 2 ^ 32 * SA"
    using roundoff_small(1) [OF n] S0 by (rule mult_right_mono)
  moreover have "p2 (- 1054) = t / 2 ^ 54"
    using p2_add [of "- 1000" "- 54"] by (simp add: p2_def t_def)
  ultimately have e: "\<bar>A - SA\<bar> \<le> SA / 2 ^ 32 + t / 2 ^ 54"
    using roundoff_small(2) [OF n] A(1) by simp
  have tA: "t \<le> A" "0 < t" using A(2) by (simp_all add: t_def)
  have lo: "t / 2 \<le> SA" using e tA by (simp add: abs_le_iff; linarith)
  then have "\<bar>A - SA\<bar> \<le> SA / 2 ^ 31" using e S0 by (simp; linarith)
  moreover have "p2 (- 1001) = t / 2" using p2_half [of "- 1000"] by (simp add: t_def)
  ultimately show ?thesis using lo unfolding SA_def by simp
qed


lemma sqrt_rel:
  assumes e: "\<bar>A - S\<bar> \<le> S / 2 ^ 31" and S: "0 \<le> S"
  shows "(1 - 1 / 2 ^ 31) * sqrt S \<le> sqrt A" "sqrt A \<le> (1 + 1 / 2 ^ 31) * sqrt S"
proof -
  define l :: real where "l = 1 - 1 / 2 ^ 31"
  define h :: real where "h = 1 + 1 / 2 ^ 31"
  have lh: "0 \<le> l" "l \<le> 1" "1 \<le> h" by (simp_all add: l_def h_def)
  have "l * l \<le> l * 1" using lh by (intro mult_left_mono) simp_all
  then have "S * (l * l) \<le> S * l" using S by (intro mult_left_mono) simp_all
  moreover have "S * l = S - S / 2 ^ 31" by (simp add: l_def algebra_simps)
  ultimately have "S * (l * l) \<le> A" using e by linarith
  then have "sqrt (S * (l * l)) \<le> sqrt A" by (rule real_sqrt_le_mono)
  then have "l * sqrt S \<le> sqrt A"
    using lh by (simp add: real_sqrt_mult mult.commute)
  then show "(1 - 1 / 2 ^ 31) * sqrt S \<le> sqrt A" unfolding l_def .
  have "h * 1 \<le> h * h" using lh by (intro mult_left_mono) simp_all
  then have "S * h \<le> S * (h * h)" using S by (intro mult_left_mono) simp_all
  moreover have "S * h = S + S / 2 ^ 31" by (simp add: h_def algebra_simps)
  ultimately have "A \<le> S * (h * h)" using e by linarith
  then have "sqrt A \<le> sqrt (S * (h * h))" by (rule real_sqrt_le_mono)
  then have "sqrt A \<le> h * sqrt S"
    using lh by (simp add: real_sqrt_mult mult.commute)
  then show "sqrt A \<le> (1 + 1 / 2 ^ 31) * sqrt S" unfolding h_def .
qed

text \<open>The computed magnitude against the magnitude.\<close>

lemma fmag_err:
  assumes n: "length a < 2 ^ 20" and A: "fdot a a = Finite A" "p2 (- 1000) \<le> A" "A \<le> p2 1000"
  shows "\<exists>r. fmag a = Finite r \<and>
           (1 - 1 / 2 ^ 30) * magnitude (map val a) \<le> r \<and>
           r \<le> (1 + 1 / 2 ^ 30) * magnitude (map val a) \<and>
           p2 (- 501) \<le> r \<and> r \<le> p2 501 \<and> p2 (- 501) \<le> magnitude (map val a)"
proof -
  define SA where "SA = dot (map val a) (map val a)"
  define s where "s = sqrt SA"
  define t where "t = sqrt A"
  have sq: "\<bar>A - SA\<bar> \<le> SA / 2 ^ 31" "p2 (- 1001) \<le> SA"
    using squares_err [OF n A(1,2)] by (simp_all add: SA_def)
  have S0: "0 \<le> SA" unfolding SA_def by (rule dot_self_nonneg)
  have A0: "0 < A" using A(2) p2_pos [of "- 1000"] by linarith
  have t0: "0 < t" using A0 by (simp add: t_def)
  have "p2 (- 500) * p2 (- 500) = p2 (- 1000)" using p2_add [of "- 500" "- 500"] by simp
  then have "sqrt (p2 (- 1000)) = p2 (- 500)"
    by (intro real_sqrt_unique) (simp_all add: power2_eq_square)
  then have tlo: "p2 (- 500) \<le> t" using A(2) unfolding t_def by (metis real_sqrt_le_mono)
  have "p2 500 * p2 500 = p2 1000" using p2_add [of 500 500] by simp
  then have "sqrt (p2 1000) = p2 500"
    by (intro real_sqrt_unique) (simp_all add: power2_eq_square)
  then have thi: "t \<le> p2 500" using A(3) unfolding t_def by (metis real_sqrt_le_mono)
  have "p2 (- 1022) \<le> p2 (- 500)" "p2 500 \<le> p2 1023" by simp_all
  then have "p2 (- 1022) \<le> \<bar>t\<bar>" "\<bar>t\<bar> \<le> p2 1023" using tlo thi t0 by linarith+
  then obtain r where r: "rnd False t = Finite r" "\<bar>r - t\<bar> \<le> \<bar>t\<bar> / 2 ^ 53"
    using rnd_rel by blast
  have rb: "(1 - 1 / 2 ^ 53) * t \<le> r" "r \<le> (1 + 1 / 2 ^ 53) * t" "0 < r"
    using rel_bounds [OF r(2) t0] by simp_all
  have mag: "fmag a = Finite r" using A0 r(1) by (simp add: fmag_def A(1) dsqrt_def t_def)
  have ts: "(1 - 1 / 2 ^ 31) * s \<le> t" "t \<le> (1 + 1 / 2 ^ 31) * s"
    using sqrt_rel [OF sq(1) S0] by (simp_all add: s_def t_def)
  have s0: "0 \<le> s" using S0 by (simp add: s_def)
  have "(1 - 1 / 2 ^ 53) * ((1 - 1 / 2 ^ 31) * s) \<le> (1 - 1 / 2 ^ 53) * t"
    using ts(1) by (intro mult_left_mono) simp_all
  moreover have "(1 - 1 / 2 ^ 30) * s \<le> (1 - 1 / 2 ^ 53) * ((1 - 1 / 2 ^ 31) * s)"
  proof -
    have "(1 - 1 / 2 ^ 30 :: real) \<le> (1 - 1 / 2 ^ 53) * (1 - 1 / 2 ^ 31)" by simp
    then have "(1 - 1 / 2 ^ 30) * s \<le> ((1 - 1 / 2 ^ 53) * (1 - 1 / 2 ^ 31)) * s"
      using s0 by (rule mult_right_mono)
    then show ?thesis by (simp only: mult.assoc)
  qed
  ultimately have lo: "(1 - 1 / 2 ^ 30) * s \<le> r" using rb(1) by linarith
  have "(1 + 1 / 2 ^ 53) * t \<le> (1 + 1 / 2 ^ 53) * ((1 + 1 / 2 ^ 31) * s)"
    using ts(2) by (intro mult_left_mono) simp_all
  moreover have "(1 + 1 / 2 ^ 53) * ((1 + 1 / 2 ^ 31) * s) \<le> (1 + 1 / 2 ^ 30) * s"
  proof -
    have "(1 + 1 / 2 ^ 53) * (1 + 1 / 2 ^ 31) \<le> (1 + 1 / 2 ^ 30 :: real)" by simp
    then have "((1 + 1 / 2 ^ 53) * (1 + 1 / 2 ^ 31)) * s \<le> (1 + 1 / 2 ^ 30) * s"
      using s0 by (rule mult_right_mono)
    then show ?thesis by (simp only: mult.assoc)
  qed
  ultimately have hi: "r \<le> (1 + 1 / 2 ^ 30) * s" using rb(2) by linarith
  have "1 / 2 * t \<le> (1 - 1 / 2 ^ 53) * t" "(1 + 1 / 2 ^ 53) * t \<le> 2 * t"
    using t0 by (simp_all add: algebra_simps)
  then have half: "t / 2 \<le> r" "r \<le> 2 * t" using rb(1,2) by linarith+
  have "p2 (- 501) = p2 (- 500) / 2" using p2_half [of "- 500"] by simp
  moreover have "p2 501 = 2 * p2 500" using p2_double [of 500] by simp
  ultimately have rr: "p2 (- 501) \<le> r" "r \<le> p2 501" using half tlo thi by linarith+
  have "sqrt (p2 (- 1001)) \<le> s" unfolding s_def using sq(2) by (rule real_sqrt_le_mono)
  moreover have "p2 (- 501) \<le> sqrt (p2 (- 1001))"
  proof -
    have "p2 (- 501) * p2 (- 501) = p2 (- 1002)" using p2_add [of "- 501" "- 501"] by simp
    then have "sqrt (p2 (- 1002)) = p2 (- 501)"
      by (intro real_sqrt_unique) (simp_all add: power2_eq_square)
    moreover have "sqrt (p2 (- 1002)) \<le> sqrt (p2 (- 1001))" by (simp del: real_sqrt_le_iff add: real_sqrt_le_mono)
    ultimately show ?thesis by simp
  qed
  ultimately have sl: "p2 (- 501) \<le> s" by linarith
  show ?thesis
    using mag lo hi rr sl unfolding s_def SA_def magnitude_def by blast
qed


lemma dot_abs_nonneg: "0 \<le> dot (map (\<lambda>x. \<bar>val x\<bar>) a) (map (\<lambda>y. \<bar>val y\<bar>) b)"
proof -
  have "0 \<le> sum_list (map2 (*) (map (\<lambda>x. \<bar>val x\<bar>) a) (map (\<lambda>y. \<bar>val y\<bar>) b))"
    by (rule sum_list_nonneg) (auto simp: set_zip)
  then show ?thesis by (simp add: dot_def)
qed

lemma dneg_finite: "isFinite q \<Longrightarrow> isFinite (dneg q) \<and> val (dneg q) = - val q"
  by (cases q) (simp_all add: dneg_def)

text \<open>The accumulated dot product against the dot product.\<close>

lemma dot_err:
  assumes len: "length a = length b" and n: "length a < 2 ^ 20" and P: "isFinite (fdot a b)"
    and D0: "p2 (- 1002) \<le> magnitude (map val a) * magnitude (map val b)"
  shows "\<bar>val (fdot a b) - dot (map val a) (map val b)\<bar> \<le>
         magnitude (map val a) * magnitude (map val b) / 2 ^ 31"
proof -
  define SP where "SP = dot (map (\<lambda>x. \<bar>val x\<bar>) a) (map (\<lambda>y. \<bar>val y\<bar>) b)"
  define M where "M = magnitude (map val a) * magnitude (map val b)"
  define t where "t = p2 (- 1002)"
  have S0: "0 \<le> SP" unfolding SP_def by (rule dot_abs_nonneg)
  have SM: "SP \<le> M" unfolding SP_def M_def by (rule dot_abs_le [OF len])
  have "\<bar>val (fdot a b) - dot (map val a) (map val b)\<bar> \<le>
      ((1 + 1 / 2 ^ 53) ^ Suc (length a) - 1) * SP +
      (1 + 1 / 2 ^ 53) ^ length a * (real (length a) * p2 (- 1075))"
    unfolding SP_def by (rule fdot_err [OF len P])
  moreover have "((1 + 1 / 2 ^ 53) ^ Suc (length a) - 1) * SP \<le> 1 / 2 ^ 32 * SP"
    using roundoff_small(1) [OF n] S0 by (rule mult_right_mono)
  moreover have "p2 (- 1054) = t / 2 ^ 52"
    using p2_add [of "- 1002" "- 52"] by (simp add: p2_def t_def)
  ultimately have e: "\<bar>val (fdot a b) - dot (map val a) (map val b)\<bar> \<le> SP / 2 ^ 32 + t / 2 ^ 52"
    using roundoff_small(2) [OF n] by simp
  have "t \<le> M" using D0 by (simp add: t_def M_def)
  then have "\<bar>val (fdot a b) - dot (map val a) (map val b)\<bar> \<le> M / 2 ^ 31"
    using e SM S0 by (simp; linarith)
  then show ?thesis unfolding M_def .
qed

lemma quotient_err:
  fixes P D den D0 :: real
  assumes D0: "0 < D0" and D: "\<bar>D\<bar> \<le> D0" and P: "\<bar>P - D\<bar> \<le> D0 / 2 ^ 31"
    and den: "(1 - 1 / 2 ^ 28) * D0 \<le> den" "den \<le> (1 + 1 / 2 ^ 28) * D0"
  shows "\<bar>P / den - D / D0\<bar> \<le> 1 / 2 ^ 27"
proof -
  define W where "W = D0 * D0"
  have W0: "0 < W" using D0 by (simp add: W_def)
  have c: "(1 - 1 / 2 ^ 28) * D0 = D0 - D0 / 268435456"
    "(1 + 1 / 2 ^ 28) * D0 = D0 + D0 / 268435456"
    by (simp_all add: algebra_simps)
  then have "\<bar>D0 - den\<bar> \<le> D0 / 268435456" using den by linarith
  then have dd: "\<bar>D0 - den\<bar> \<le> D0 / 2 ^ 28" by simp
  have den0: "0 < den" using den(1) D0 unfolding c by linarith
  have "\<bar>(P - D) * D0\<bar> \<le> D0 / 2 ^ 31 * D0"
    using P D0 by (simp add: abs_mult)
  moreover have "\<bar>D * (D0 - den)\<bar> \<le> D0 * (D0 / 2 ^ 28)"
    unfolding abs_mult using D dd by (intro mult_mono) simp_all
  ultimately have "\<bar>(P - D) * D0 + D * (D0 - den)\<bar> \<le> D0 / 2 ^ 31 * D0 + D0 * (D0 / 2 ^ 28)"
    by linarith
  also have "\<dots> = (1 / 2 ^ 31 + 1 / 2 ^ 28) * W" by (simp add: W_def algebra_simps)
  finally have num: "\<bar>(P - D) * D0 + D * (D0 - den)\<bar> \<le> (1 / 2 ^ 31 + 1 / 2 ^ 28) * W" .
  have "(1 - 1 / 2 ^ 28) * D0 * D0 \<le> den * D0" using den(1) D0 by (intro mult_right_mono) simp_all
  then have dn: "(1 - 1 / 2 ^ 28) * W \<le> den * D0" by (simp add: W_def mult.assoc)
  have "(1 / 2 ^ 31 + 1 / 2 ^ 28) * W \<le> 1 / 2 ^ 27 * ((1 - 1 / 2 ^ 28) * W)"
  proof -
    have "(1 / 2 ^ 31 + 1 / 2 ^ 28 :: real) \<le> 1 / 2 ^ 27 * (1 - 1 / 2 ^ 28)" by simp
    then have "(1 / 2 ^ 31 + 1 / 2 ^ 28) * W \<le> (1 / 2 ^ 27 * (1 - 1 / 2 ^ 28)) * W"
      using W0 by (intro mult_right_mono) simp_all
    then show ?thesis by (simp only: mult.assoc)
  qed
  also have "\<dots> \<le> 1 / 2 ^ 27 * (den * D0)" using dn by (intro mult_left_mono) simp_all
  finally have "\<bar>(P - D) * D0 + D * (D0 - den)\<bar> \<le> 1 / 2 ^ 27 * (den * D0)"
    using num by linarith
  moreover have "0 < den * D0" using den0 D0 by simp
  ultimately have "\<bar>(P - D) * D0 + D * (D0 - den)\<bar> / (den * D0) \<le> 1 / 2 ^ 27"
    by (simp add: pos_divide_le_eq)
  moreover have "P / den - D / D0 = ((P - D) * D0 + D * (D0 - den)) / (den * D0)"
    using den0 D0 by (simp add: field_simps)
  moreover have "\<bar>den * D0\<bar> = den * D0" using den0 D0 by simp
  ultimately show ?thesis by (simp only: abs_divide)
qed


text \<open>
  The accuracy of the distance: fewer than \<open>2^20\<close> components, sums of squares that
  neither underflow nor overflow, a finite dot product.
\<close>

lemma cosd_accuracy:
  assumes len: "length a = length b" and n: "length a < 2 ^ 20"
    and A: "fdot a a = Finite A" "p2 (- 1000) \<le> A" "A \<le> p2 1000"
    and B: "fdot b b = Finite B" "p2 (- 1000) \<le> B" "B \<le> p2 1000"
    and P: "isFinite (fdot a b)"
  shows "isFinite (cosd a b) \<and>
         \<bar>val (cosd a b) -
          (1 - dot (map val a) (map val b) / (magnitude (map val a) * magnitude (map val b)))\<bar>
         \<le> 1 / 2 ^ 26"
proof -
  define sa where "sa = magnitude (map val a)"
  define sb where "sb = magnitude (map val b)"
  define D0 where "D0 = sa * sb"
  define D where "D = dot (map val a) (map val b)"
  define Pv where "Pv = val (fdot a b)"
  obtain ra where ra: "fmag a = Finite ra" "(1 - 1 / 2 ^ 30) * sa \<le> ra" "ra \<le> (1 + 1 / 2 ^ 30) * sa"
    "p2 (- 501) \<le> ra" "ra \<le> p2 501" "p2 (- 501) \<le> sa"
    using fmag_err [OF n A] unfolding sa_def by blast
  have nb: "length b < 2 ^ 20" using n len by simp
  obtain rb where rb: "fmag b = Finite rb" "(1 - 1 / 2 ^ 30) * sb \<le> rb" "rb \<le> (1 + 1 / 2 ^ 30) * sb"
    "p2 (- 501) \<le> rb" "rb \<le> p2 501" "p2 (- 501) \<le> sb"
    using fmag_err [OF nb B] unfolding sb_def by blast
  have pos: "0 < sa" "0 < sb" "0 < ra" "0 < rb"
    using ra(4,6) rb(4,6) p2_pos [of "- 501"] by linarith+
  have D0p: "0 < D0" using pos by (simp add: D0_def)
  have p1002: "p2 (- 501) * p2 (- 501) = p2 (- 1002)" "p2 501 * p2 501 = p2 1002"
    using p2_add [of "- 501" "- 501"] p2_add [of 501 501] by simp_all
  have "p2 (- 501) * p2 (- 501) \<le> sa * sb" using ra(6) rb(6) pos by (intro mult_mono) simp_all
  then have D0lo: "p2 (- 1002) \<le> D0" by (simp add: p1002 D0_def)
  define x where "x = ra * rb"
  have x0: "0 < x" using pos by (simp add: x_def)
  have "p2 (- 501) * p2 (- 501) \<le> ra * rb" using ra(4) rb(4) pos by (intro mult_mono) simp_all
  then have xlo: "p2 (- 1002) \<le> x" by (simp add: p1002 x_def)
  have "ra * rb \<le> p2 501 * p2 501" using ra(5) rb(5) pos by (intro mult_mono) simp_all
  then have xhi: "x \<le> p2 1002" by (simp add: p1002 x_def)
  have "p2 (- 1022) \<le> p2 (- 1002)" "p2 1002 \<le> p2 1023" by simp_all
  then have nx: "p2 (- 1022) \<le> \<bar>x\<bar>" "\<bar>x\<bar> \<le> p2 1023" using xlo xhi x0 by linarith+
  obtain den where den: "rnd False x = Finite den" "\<bar>den - x\<bar> \<le> \<bar>x\<bar> / 2 ^ 53"
    using rnd_rel [OF nx] by blast
  have db: "(1 - 1 / 2 ^ 53) * x \<le> den" "den \<le> (1 + 1 / 2 ^ 53) * x" "0 < den"
    using rel_bounds [OF den(2) x0] by simp_all
  have mul: "dmul (Finite ra) (Finite rb) = Finite den"
    using den(1) pos by (simp add: dmul_def isZero_def x_def)
  have "((1 - 1 / 2 ^ 30) * sa) * ((1 - 1 / 2 ^ 30) * sb) \<le> ra * rb"
    using ra(2) rb(2) pos by (intro mult_mono) simp_all
  then have x_lo: "(1 - 1 / 2 ^ 30) * (1 - 1 / 2 ^ 30) * D0 \<le> x"
    by (simp add: x_def D0_def mult.assoc mult.left_commute)
  have "ra * rb \<le> ((1 + 1 / 2 ^ 30) * sa) * ((1 + 1 / 2 ^ 30) * sb)"
    using ra(3) rb(3) pos by (intro mult_mono) simp_all
  then have x_hi: "x \<le> (1 + 1 / 2 ^ 30) * (1 + 1 / 2 ^ 30) * D0"
    by (simp add: x_def D0_def mult.assoc mult.left_commute)
  have den_lo: "(1 - 1 / 2 ^ 28) * D0 \<le> den"
  proof -
    have "(1 - 1 / 2 ^ 28 :: real) \<le> (1 - 1 / 2 ^ 53) * ((1 - 1 / 2 ^ 30) * (1 - 1 / 2 ^ 30))"
      by simp
    then have "(1 - 1 / 2 ^ 28) * D0 \<le> (1 - 1 / 2 ^ 53) * ((1 - 1 / 2 ^ 30) * (1 - 1 / 2 ^ 30)) * D0"
      using D0p by (intro mult_right_mono) simp_all
    also have "\<dots> = (1 - 1 / 2 ^ 53) * ((1 - 1 / 2 ^ 30) * (1 - 1 / 2 ^ 30) * D0)"
      by (simp only: mult.assoc)
    also have "\<dots> \<le> (1 - 1 / 2 ^ 53) * x" using x_lo by (intro mult_left_mono) simp_all
    finally show ?thesis using db(1) by linarith
  qed
  have den_hi: "den \<le> (1 + 1 / 2 ^ 28) * D0"
  proof -
    have "(1 + 1 / 2 ^ 53) * x \<le> (1 + 1 / 2 ^ 53) * ((1 + 1 / 2 ^ 30) * (1 + 1 / 2 ^ 30) * D0)"
      using x_hi by (intro mult_left_mono) simp_all
    also have "\<dots> = (1 + 1 / 2 ^ 53) * ((1 + 1 / 2 ^ 30) * (1 + 1 / 2 ^ 30)) * D0"
      by (simp only: mult.assoc)
    also have "\<dots> \<le> (1 + 1 / 2 ^ 28) * D0"
    proof -
      have "(1 + 1 / 2 ^ 53) * ((1 + 1 / 2 ^ 30) * (1 + 1 / 2 ^ 30)) \<le> (1 + 1 / 2 ^ 28 :: real)"
        by simp
      then show ?thesis using D0p by (intro mult_right_mono) simp_all
    qed
    finally show ?thesis using db(2) by linarith
  qed
  have Dle: "\<bar>D\<bar> \<le> D0" unfolding D_def D0_def sa_def sb_def by (rule abs_dot_le) (simp add: len)
  have Perr: "\<bar>Pv - D\<bar> \<le> D0 / 2 ^ 31"
    unfolding Pv_def D_def D0_def sa_def sb_def
    by (rule dot_err [OF len n P]) (use D0lo in \<open>simp add: D0_def sa_def sb_def\<close>)
  define y where "y = Pv / den"
  have yerr: "\<bar>y - D / D0\<bar> \<le> 1 / 2 ^ 27"
    unfolding y_def by (rule quotient_err [OF D0p Dle Perr den_lo den_hi])
  define cs where "cs = D / D0"
  define u :: real where "u = 1 / 2 ^ 53"
  define e :: real where "e = 1 / 2 ^ 27"
  have ue: "0 \<le> u" "7 * u \<le> 1" "8 * u + e \<le> 1 / 2 ^ 26" "e \<le> 1"
    by (simp_all add: u_def e_def)
  have tiny: "p2 (- 1075) \<le> u"
  proof -
    have "p2 (- 1075) \<le> p2 (- 53)" by simp
    then show ?thesis by (simp add: p2_def u_def)
  qed
  have yerr': "\<bar>y - cs\<bar> \<le> e" using yerr by (simp add: cs_def e_def)
  have "\<bar>D\<bar> / D0 \<le> 1" using Dle D0p by simp
  then have cs1: "\<bar>cs\<bar> \<le> 1" using D0p by (simp add: cs_def abs_divide)
  have ybd: "\<bar>y\<bar> \<le> 2" using yerr' cs1 ue(4) by linarith
  define neg where "neg = (negative (fdot a b) \<noteq> negative (Finite den))"
  have dv: "ddiv (fdot a b) (Finite den) = rnd neg y"
    using P db(3) by (cases "fdot a b") (simp_all add: ddiv_def isZero_def y_def Pv_def neg_def)
  have "\<bar>y\<bar> \<le> p2 1" using ybd by (simp add: p2_def)
  then have qf: "rnd neg y \<noteq> NaN \<and> isFinite (rnd neg y) \<and> \<bar>val (rnd neg y)\<bar> \<le> p2 1"
    by (intro rnd_bounded) simp_all
  define q where "q = val (rnd neg y)"
  have "\<bar>q - y\<bar> \<le> \<bar>y\<bar> / 2 ^ 53 + p2 (- 1075)"
    unfolding q_def using qf by (intro rnd_err) simp
  then have qerr: "\<bar>q - y\<bar> \<le> \<bar>y\<bar> * u + p2 (- 1075)" by (simp add: u_def)
  have yu: "\<bar>y\<bar> * u \<le> 2 * u" using ybd ue(1) by (rule mult_right_mono)
  define neg' where "neg' = (negative (Finite 1) \<and> negative (dneg (rnd neg y)))"
  have sb': "dsub (Finite 1) (rnd neg y) = rnd neg' (1 - q)"
    using qf dneg_finite [of "rnd neg y"]
    by (auto simp: dsub_def dadd_def neg'_def q_def)
  have qbd: "\<bar>1 - q\<bar> \<le> 4" using qerr yu ybd tiny ue by linarith
  then have "\<bar>1 - q\<bar> \<le> p2 2" by (simp add: p2_def)
  then have df: "rnd neg' (1 - q) \<noteq> NaN \<and> isFinite (rnd neg' (1 - q)) \<and>
      \<bar>val (rnd neg' (1 - q))\<bar> \<le> p2 2"
    by (intro rnd_bounded) simp_all
  define d where "d = val (rnd neg' (1 - q))"
  have "\<bar>d - (1 - q)\<bar> \<le> \<bar>1 - q\<bar> / 2 ^ 53 + p2 (- 1075)"
    unfolding d_def using df by (intro rnd_err) simp
  then have derr: "\<bar>d - (1 - q)\<bar> \<le> \<bar>1 - q\<bar> * u + p2 (- 1075)" by (simp add: u_def)
  have qu: "\<bar>1 - q\<bar> * u \<le> 4 * u" using qbd ue(1) by (rule mult_right_mono)
  have nz: "\<not> deq (Finite ra) (Finite 0)" "\<not> deq (Finite rb) (Finite 0)"
    using pos by (simp_all add: deq_def)
  have c: "cosd a b = rnd neg' (1 - q)"
    by (simp only: cosd_def ra(1) rb(1) nz mul dv sb' simp_thms if_False)
  have "\<bar>d - (1 - cs)\<bar> \<le> 8 * u + e" using derr qerr yerr' qu yu tiny by linarith
  then have "\<bar>d - (1 - cs)\<bar> \<le> 1 / 2 ^ 26" using ue(3) by linarith
  then show ?thesis
    using df unfolding c d_def cs_def D_def D0_def sa_def sb_def by simp
qed

lemma steady_accuracy:
  assumes len: "length a = length b" and st: "steady a b"
  shows "isFinite (cosd a b) \<and> \<bar>val (cosd a b) - cosr (map val a) (map val b)\<bar> \<le> 1 / 2 ^ 26"
proof -
  have n: "length a < 2 ^ 20" and P: "isFinite (fdot a b)"
    and ra: "inRange (fdot a a)" and rb: "inRange (fdot b b)"
    using st by (simp_all add: steady_def)
  obtain A where A: "fdot a a = Finite A" "p2 (- 1000) \<le> A" "A \<le> p2 1000"
    using ra by (cases "fdot a a") (simp_all add: inRange_def p2_def)
  obtain B where B: "fdot b b = Finite B" "p2 (- 1000) \<le> B" "B \<le> p2 1000"
    using rb by (cases "fdot b b") (simp_all add: inRange_def p2_def)
  show ?thesis unfolding cosr_def by (rule cosd_accuracy [OF len n A B P])
qed

lemma cosr_range: "length a = length b \<Longrightarrow> 0 \<le> cosr a b \<and> cosr a b \<le> 2"
proof -
  assume len: "length a = length b"
  define M where "M = magnitude a * magnitude b"
  have M0: "0 \<le> M" unfolding M_def magnitude_def by (simp add: dot_self_nonneg)
  have "\<bar>dot a b\<bar> \<le> M" unfolding M_def by (rule abs_dot_le [OF len])
  then have "\<bar>dot a b / M\<bar> \<le> 1" using M0 by (cases "M = 0") (simp_all add: abs_divide)
  then show ?thesis unfolding cosr_def M_def [symmetric] by linarith
qed

lemma inRange_self:
  assumes "inRange (fdot a a)"
  shows "isFinite (cosd a a) \<and> \<bar>val (cosd a a)\<bar> \<le> 1 / 2 ^ 50"
proof -
  obtain A where A: "fdot a a = Finite A" "p2 (- 1000) \<le> A" "A \<le> p2 1000"
    using assms by (cases "fdot a a") (simp_all add: inRange_def p2_def)
  from self_distance [OF A] show ?thesis by simp
qed

section \<open>The contract of \<open>cosineDistance\<close>\<close>

text \<open>
  C7, as the code has it: \<open>cosineDistance\<close> throws exactly when the lengths differ.
  On equal lengths it returns 1 when the magnitude of one of the vectors, computed in
  double arithmetic, is zero, as it is for a vector of zeros; otherwise it returns the
  value of the distance formula in double arithmetic, every operation rounded. When the
  accumulations are steady, that value is finite and within \<open>2^-26\<close> of the distance
  formula over the reals.
\<close>

theorem cosineDistance_contract:
  "((\<exists>e. cosineDistance a b = Inl e) \<longleftrightarrow> length a \<noteq> length b) \<and>
   (length a \<noteq> length b \<longrightarrow>
      cosineDistance a b = Inl (Error ''Vectors must have the same length'')) \<and>
   (length a = length b \<longrightarrow>
      cosineDistance a b =
        Inr (if deq (fmag a) (Finite 0) \<or> deq (fmag b) (Finite 0) then Finite 1
             else dsub (Finite 1) (ddiv (fdot a b) (dmul (fmag a) (fmag b))))) \<and>
   (length a = length b \<and> (list_all isZero a \<or> list_all isZero b) \<longrightarrow>
      cosineDistance a b = Inr (Finite 1)) \<and>
   (length a = length b \<and> steady a b \<longrightarrow>
      (\<exists>d. cosineDistance a b = Inr d \<and> isFinite d \<and>
           \<bar>val d - cosr (map val a) (map val b)\<bar> \<le> 1 / 2 ^ 26))"
proof -
  have z: "cosineDistance a b = Inr (Finite 1)"
    if "length a = length b" "list_all isZero a \<or> list_all isZero b"
    using that zero_fmag [of a] zero_fmag [of b]
    by (auto simp: cosineDistance_eq cosd_def deq_def)
  have acc: "\<exists>d. cosineDistance a b = Inr d \<and> isFinite d \<and>
      \<bar>val d - cosr (map val a) (map val b)\<bar> \<le> 1 / 2 ^ 26"
    if "length a = length b" "steady a b"
    using steady_accuracy [OF that] that(1) by (simp add: cosineDistance_eq)
  have r: "(\<exists>e. cosineDistance a b = Inl e) \<longleftrightarrow> length a \<noteq> length b"
    by (cases "length a = length b") (simp_all add: cosineDistance_eq cosineDistance_raises)
  have v: "length a = length b \<longrightarrow>
      cosineDistance a b =
        Inr (if deq (fmag a) (Finite 0) \<or> deq (fmag b) (Finite 0) then Finite 1
             else dsub (Finite 1) (ddiv (fdot a b) (dmul (fmag a) (fmag b))))"
    by (simp add: cosineDistance_eq cosd_def)
  from z acc r v cosineDistance_raises [of a b] show ?thesis by blast
qed

lemma four_steady:
  "steady [Finite 1, Finite 1, Finite 1, Finite 1] [Finite 1, Finite 1, Finite 1, Finite (- 1)]"
  "steady [Finite 1, Finite 1, Finite 1, Finite 1] [Finite 1, Finite 1, Finite (- 1), Finite (- 1)]"
  "inRange (fdot [Finite 1, Finite 1, Finite 1, Finite 1] [Finite 1, Finite 1, Finite 1, Finite 1])"
  by (simp_all add: steady_def inRange_def fdot_def double_ops)

theorem cosineDistance_contract_witness:
  "length [Finite 1, Finite 1, Finite 1, Finite 1] = length [Finite 1, Finite 1, Finite 1, Finite (- 1)] \<and>
   steady [Finite 1, Finite 1, Finite 1, Finite 1] [Finite 1, Finite 1, Finite 1, Finite (- 1)] \<and>
   cosineDistance [Finite 1, Finite 1, Finite 1, Finite 1] [Finite 1, Finite 1, Finite 1, Finite (- 1)] =
     Inr (Finite (1 / 2)) \<and>
   \<bar>1 / 2 - cosr [1, 1, 1, 1] [1, 1, 1, - 1]\<bar> \<le> 1 / 2 ^ 26 \<and>
   length [Finite 1] \<noteq> length ([] :: double list) \<and>
   cosineDistance [Finite 1] [] = Inl (Error ''Vectors must have the same length'') \<and>
   list_all isZero [Finite 0, NegZero] \<and>
   cosineDistance [Finite 0, NegZero] [Finite 1, Finite 1] = Inr (Finite 1)"
proof -
  note t1 = cosineDistance_contract
    [of "[Finite 1, Finite 1, Finite 1, Finite 1]" "[Finite 1, Finite 1, Finite 1, Finite (- 1)]"]
  note t2 = cosineDistance_contract [of "[Finite 1]" "[] :: double list"]
  note t3 = cosineDistance_contract [of "[Finite 0, NegZero]" "[Finite 1, Finite 1]"]
  have l: "length [Finite 1, Finite 1, Finite 1, Finite 1] =
      length [Finite 1, Finite 1, Finite 1, Finite (- 1)]"
    by simp
  from t1 l four_steady(1) obtain d where
    d: "cosineDistance [Finite 1, Finite 1, Finite 1, Finite 1]
          [Finite 1, Finite 1, Finite 1, Finite (- 1)] = Inr d"
      "\<bar>val d - cosr (map val [Finite 1, Finite 1, Finite 1, Finite 1])
                  (map val [Finite 1, Finite 1, Finite 1, Finite (- 1)])\<bar> \<le> 1 / 2 ^ 26"
    by blast
  have c: "cosineDistance [Finite 1, Finite 1, Finite 1, Finite 1]
      [Finite 1, Finite 1, Finite 1, Finite (- 1)] = Inr (Finite (1 / 2))"
    by (simp add: cosineDistance_eq toy_cosd)
  then have "d = Finite (1 / 2)" using d(1) by simp
  then have e: "\<bar>1 / 2 - cosr [1, 1, 1, 1] [1, 1, 1, - 1]\<bar> \<le> 1 / 2 ^ 26"
    using d(2) by simp
  have n: "length [Finite 1] \<noteq> length ([] :: double list)" by simp
  from t2 n have r: "cosineDistance [Finite 1] [] = Inl (Error ''Vectors must have the same length'')"
    by blast
  have z: "list_all isZero [Finite 0, NegZero]" by (simp add: isZero_def)
  have l3: "length [Finite 0, NegZero] = length [Finite 1, Finite 1]" by simp
  from t3 l3 z have o: "cosineDistance [Finite 0, NegZero] [Finite 1, Finite 1] = Inr (Finite 1)"
    by blast
  show ?thesis by (intro conjI) (fact l four_steady(1) c e n r z o)+
qed

lemma tiny_square: "rnd False (1 / 2 ^ 600 * (1 / 2 ^ 600)) = Finite 0"
  using rnd_underflow [of "1 / 2 ^ 600 * (1 / 2 ^ 600)" False] by (simp add: p2_def zero_def)

text \<open>
  C7 as stated fails where the squares underflow: the vector \<open>(2^-600, 0)\<close> has a
  magnitude other than zero and the formula gives 0 for its distance from itself, but
  its computed magnitude is zero and the function returns 1.
\<close>

theorem cosineDistance_underflow_counterexample:
  "cosineDistance [Finite (1 / 2 ^ 600), Finite 0] [Finite (1 / 2 ^ 600), Finite 0] = Inr (Finite 1) \<and>
   magnitude [1 / 2 ^ 600, 0] \<noteq> 0 \<and>
   cosr [1 / 2 ^ 600, 0] [1 / 2 ^ 600, 0] = 0"
proof -
  have m: "dmul (Finite (1 / 2 ^ 600)) (Finite (1 / 2 ^ 600)) = Finite 0"
    using tiny_square by (simp add: dmul_def isZero_def)
  have z: "dmul (Finite 0) (Finite 0) = Finite 0" "dadd (Finite 0) (Finite 0) = Finite 0"
    "dsqrt (Finite 0) = Finite 0"
    by (simp_all add: double_ops)
  have "cosineDistance [Finite (1 / 2 ^ 600), Finite 0] [Finite (1 / 2 ^ 600), Finite 0] =
      Inr (Finite 1)"
    by (simp add: cosineDistance_def m [simplified] z deq_def)
  moreover have "magnitude [1 / 2 ^ 600, 0] \<noteq> 0"
    by (simp add: magnitude_def dot_def)
  moreover have "cosr [1 / 2 ^ 600, 0] [1 / 2 ^ 600, 0] = 0"
    by (simp add: cosr_def magnitude_def dot_def)
  ultimately show ?thesis by (simp only: simp_thms)
qed

section \<open>Symmetry, the distance of a vector from itself and the range\<close>

text \<open>
  C8, as the code has it: the distance is symmetric, exactly. The distance of a vector
  from itself is approximately 0, a finite number of magnitude at most \<open>2^-50\<close>, when
  the accumulated sum of its squares lies between \<open>2^-1000\<close> and \<open>2^1000\<close>; and it is
  1 when the computed magnitude is zero. When the accumulations are steady the distance
  is finite and lies in \<open>[0, 2]\<close> up to \<open>2^-26\<close>.
\<close>

theorem cosineDistance_symmetric_self:
  "(length a = length b \<longrightarrow> cosineDistance a b = cosineDistance b a) \<and>
   (inRange (fdot a a) \<longrightarrow>
      (\<exists>d. cosineDistance a a = Inr d \<and> isFinite d \<and> \<bar>val d\<bar> \<le> 1 / 2 ^ 50)) \<and>
   (deq (fmag a) (Finite 0) \<longrightarrow> cosineDistance a a = Inr (Finite 1)) \<and>
   (length a = length b \<and> steady a b \<longrightarrow>
      (\<exists>d. cosineDistance a b = Inr d \<and> isFinite d \<and>
           - (1 / 2 ^ 26) \<le> val d \<and> val d \<le> 2 + 1 / 2 ^ 26))"
proof -
  have "cosineDistance a b = cosineDistance b a" if "length a = length b"
    using that cosd_commute [OF that] by (simp add: cosineDistance_eq)
  moreover have "\<exists>d. cosineDistance a a = Inr d \<and> isFinite d \<and> \<bar>val d\<bar> \<le> 1 / 2 ^ 50"
    if "inRange (fdot a a)"
    using inRange_self [OF that] by (simp add: cosineDistance_eq)
  moreover have "cosineDistance a a = Inr (Finite 1)" if "deq (fmag a) (Finite 0)"
    using that by (simp add: cosineDistance_eq cosd_def)
  moreover have "\<exists>d. cosineDistance a b = Inr d \<and> isFinite d \<and>
      - (1 / 2 ^ 26) \<le> val d \<and> val d \<le> 2 + 1 / 2 ^ 26"
    if "length a = length b" "steady a b"
  proof -
    have "0 \<le> cosr (map val a) (map val b) \<and> cosr (map val a) (map val b) \<le> 2"
      using that(1) by (intro cosr_range) simp
    moreover have "isFinite (cosd a b)"
      "\<bar>val (cosd a b) - cosr (map val a) (map val b)\<bar> \<le> 1 / 2 ^ 26"
      using steady_accuracy [OF that] by simp_all
    ultimately have "- (1 / 2 ^ 26) \<le> val (cosd a b) \<and> val (cosd a b) \<le> 2 + 1 / 2 ^ 26"
      by linarith
    then show ?thesis using \<open>isFinite (cosd a b)\<close> that(1) by (simp add: cosineDistance_eq)
  qed
  ultimately show ?thesis by blast
qed

theorem cosineDistance_symmetric_self_witness:
  "length [Finite 1, Finite 1, Finite 1, Finite 1] = length [Finite 1, Finite 1, Finite (- 1), Finite (- 1)] \<and>
   steady [Finite 1, Finite 1, Finite 1, Finite 1] [Finite 1, Finite 1, Finite (- 1), Finite (- 1)] \<and>
   inRange (fdot [Finite 1, Finite 1, Finite 1, Finite 1] [Finite 1, Finite 1, Finite 1, Finite 1]) \<and>
   cosineDistance [Finite 1, Finite 1, Finite 1, Finite 1] [Finite 1, Finite 1, Finite (- 1), Finite (- 1)] =
   cosineDistance [Finite 1, Finite 1, Finite (- 1), Finite (- 1)] [Finite 1, Finite 1, Finite 1, Finite 1] \<and>
   (\<exists>d. cosineDistance [Finite 1, Finite 1, Finite 1, Finite 1] [Finite 1, Finite 1, Finite 1, Finite 1] =
          Inr d \<and> isFinite d \<and> \<bar>val d\<bar> \<le> 1 / 2 ^ 50) \<and>
   (\<exists>d. cosineDistance [Finite 1, Finite 1, Finite 1, Finite 1] [Finite 1, Finite 1, Finite (- 1), Finite (- 1)] =
          Inr d \<and> isFinite d \<and> - (1 / 2 ^ 26) \<le> val d \<and> val d \<le> 2 + 1 / 2 ^ 26)"
proof -
  note t = cosineDistance_symmetric_self
    [of "[Finite 1, Finite 1, Finite 1, Finite 1]" "[Finite 1, Finite 1, Finite (- 1), Finite (- 1)]"]
  have l: "length [Finite 1, Finite 1, Finite 1, Finite 1] =
      length [Finite 1, Finite 1, Finite (- 1), Finite (- 1)]"
    by simp
  from t l have s: "cosineDistance [Finite 1, Finite 1, Finite 1, Finite 1]
      [Finite 1, Finite 1, Finite (- 1), Finite (- 1)] =
    cosineDistance [Finite 1, Finite 1, Finite (- 1), Finite (- 1)]
      [Finite 1, Finite 1, Finite 1, Finite 1]"
    by blast
  from t four_steady(3) have e: "\<exists>d. cosineDistance [Finite 1, Finite 1, Finite 1, Finite 1]
      [Finite 1, Finite 1, Finite 1, Finite 1] = Inr d \<and> isFinite d \<and> \<bar>val d\<bar> \<le> 1 / 2 ^ 50"
    by blast
  from t l four_steady(2) have r: "\<exists>d. cosineDistance [Finite 1, Finite 1, Finite 1, Finite 1]
      [Finite 1, Finite 1, Finite (- 1), Finite (- 1)] = Inr d \<and> isFinite d \<and>
      - (1 / 2 ^ 26) \<le> val d \<and> val d \<le> 2 + 1 / 2 ^ 26"
    by blast
  show ?thesis by (intro conjI) (fact l four_steady(2,3) s e r)+
qed

text \<open>
  C8 as stated fails on the range: for three ones the rounded square root of 3 is below
  the root, its rounded square is below 3, the quotient is rounded above 1, and the
  distance of the vector from itself is \<open>-2^-52\<close>, below 0.
\<close>

theorem cosineDistance_negative_counterexample:
  "cosineDistance [Finite 1, Finite 1, Finite 1] [Finite 1, Finite 1, Finite 1] =
     Inr (Finite (- (1 / 2 ^ 52))) \<and>
   - (1 / 2 ^ 52) < (0::real)"
  using ones_cosd by (simp add: cosineDistance_eq)


section \<open>The singleton\<close>

lemma getPuzzleManagers_Some:
  "getPuzzleManagers pds (Some m) = replicate (length pds) m"
  by (induction pds) (simp_all add: getPuzzleManager_def getInstance_def)

text \<open>
  C9: the first call of \<open>getPuzzleManager\<close> builds the manager from its payload; every
  later call, whatever its payload, returns that manager and leaves the static field as
  it is.
\<close>

theorem getPuzzleManager_singleton:
  "getPuzzleManager pd None = (newPuzzleManager pd, Some (newPuzzleManager pd)) \<and>
   getPuzzleManager pd' (snd (getPuzzleManager pd inst)) = getPuzzleManager pd inst \<and>
   getPuzzleManagers (pd # pds) None = replicate (Suc (length pds)) (newPuzzleManager pd)"
  by (simp add: getPuzzleManagers_Some getPuzzleManager_def getInstance_def Let_def
      split: option.splits)

section \<open>The session\<close>

lemma findHint_returns:
  assumes "sameDimension (newPuzzleManager pd) gs"
  shows "\<exists>h. findHint (newPuzzleManager pd) guess gs = Inr h"
proof (cases "getEmbedding (newPuzzleManager pd) guess")
  case None
  then show ?thesis by (simp add: findHint_def)
next
  case (Some ge)
  show ?thesis by (simp only: findHint_eq [OF Some assms]) blast
qed

text \<open>
  C6: on a session whose \<open>solved\<close> flag is set, \<open>submitGuess\<close> leaves the session as it
  is and answers that the puzzle is already completed, in a message that contains the
  target word.
\<close>

theorem submitGuess_terminal:
  assumes "solved session = Some True"
  shows "\<exists>r msg. submitGuess pm session guess = (Inr r, session) \<and>
           isGameOver r \<and> correct r = None \<and> hint r = None \<and> guessesRemaining r = None \<and>
           message r = Some msg \<and>
           prefix ''You have already completed this puzzle!'' msg \<and>
           sublist (targetWord session) msg"
  using assms
    sublist_appendI [of "targetWord session"
      "''You have already completed this puzzle! The word was '' @ [CHR 0x27]"
      "[CHR 0x27] @ ''.''"]
  by (simp add: submitGuess_def)

theorem submitGuess_terminal_witness:
  "solved (toySession\<lparr>solved := Some True\<rparr>) = Some True \<and>
   (\<exists>r msg. submitGuess toyManager (toySession\<lparr>solved := Some True\<rparr>) ''dog'' =
              (Inr r, toySession\<lparr>solved := Some True\<rparr>) \<and>
           isGameOver r \<and> correct r = None \<and> hint r = None \<and> guessesRemaining r = None \<and>
           message r = Some msg \<and>
           prefix ''You have already completed this puzzle!'' msg \<and>
           sublist (targetWord (toySession\<lparr>solved := Some True\<rparr>)) msg)"
  using submitGuess_terminal [of "toySession\<lparr>solved := Some True\<rparr>" toyManager "''dog''"]
  by (simp add: toySession_def)

text \<open>
  C1: on a session whose \<open>solved\<close> flag is not set, \<open>submitGuess\<close> works on the history
  extended by the guess. A guess equal to the target wins, whatever the length of the
  history; otherwise a history of ten or more guesses loses and the message shows the
  target; otherwise the hint of \<open>findHint\<close> is appended to the used hints and returned
  with the number of guesses left. When \<open>findHint\<close> throws, so does the handler, before
  any write; on a table of one dimension \<open>findHint\<close> does not throw.
\<close>

theorem submitGuess_active:
  assumes "solved session \<noteq> Some True"
  shows "let played = session\<lparr>guessesHistory := guessesHistory session @ [guess]\<rparr> in
    (guess = targetWord session \<longrightarrow>
       submitGuess pm session guess =
         (Inr \<lparr> correct = Some True, isGameOver = True,
                message = Some (''Congratulations! You guessed the word in ''
                                @ showNat (Suc (length (guessesHistory session))) @ '' tries!''),
                hint = None, guessesRemaining = None \<rparr>,
          played\<lparr>solved := Some True\<rparr>)) \<and>
    (guess \<noteq> targetWord session \<and> 10 \<le> length (guessesHistory played) \<longrightarrow>
       (\<exists>r msg. submitGuess pm session guess = (Inr r, played\<lparr>solved := Some True\<rparr>) \<and>
          correct r = Some False \<and> isGameOver r \<and> hint r = None \<and>
          message r = Some msg \<and> sublist (targetWord session) msg)) \<and>
    (guess \<noteq> targetWord session \<and> length (guessesHistory played) < 10 \<longrightarrow>
       (case findHint pm guess played of
          Inr h \<Rightarrow>
            submitGuess pm session guess =
              (Inr \<lparr> correct = Some False, isGameOver = False, message = None, hint = Some h,
                     guessesRemaining = Some (10 - int (length (guessesHistory played))) \<rparr>,
               played\<lparr>usedHints := usedHints session @ [h]\<rparr>)
        | Inl e \<Rightarrow> submitGuess pm session guess = (Inl e, session))) \<and>
    (\<forall>pd. pm = newPuzzleManager pd \<and> sameDimension pm played \<longrightarrow>
       (\<exists>h. findHint pm guess played = Inr h))"
proof -
  let ?played = "session\<lparr>guessesHistory := guessesHistory session @ [guess]\<rparr>"
  have win: "guess = targetWord session \<longrightarrow>
       submitGuess pm session guess =
         (Inr \<lparr> correct = Some True, isGameOver = True,
                message = Some (''Congratulations! You guessed the word in ''
                                @ showNat (Suc (length (guessesHistory session))) @ '' tries!''),
                hint = None, guessesRemaining = None \<rparr>,
          ?played\<lparr>solved := Some True\<rparr>)"
    using assms by (simp add: submitGuess_def Let_def)
  have lose: "guess \<noteq> targetWord session \<and> 10 \<le> length (guessesHistory ?played) \<longrightarrow>
       (\<exists>r msg. submitGuess pm session guess = (Inr r, ?played\<lparr>solved := Some True\<rparr>) \<and>
          correct r = Some False \<and> isGameOver r \<and> hint r = None \<and>
          message r = Some msg \<and> sublist (targetWord session) msg)"
    using assms
      sublist_appendI [of "targetWord session"
        "''You've used all 10 guesses! The word was '' @ [CHR 0x27]" "[CHR 0x27] @ ''.''"]
    by (simp add: submitGuess_def Let_def)
  have go: "guess \<noteq> targetWord session \<and> length (guessesHistory ?played) < 10 \<longrightarrow>
       (case findHint pm guess ?played of
          Inr h \<Rightarrow>
            submitGuess pm session guess =
              (Inr \<lparr> correct = Some False, isGameOver = False, message = None, hint = Some h,
                     guessesRemaining = Some (10 - int (length (guessesHistory ?played))) \<rparr>,
               ?played\<lparr>usedHints := usedHints session @ [h]\<rparr>)
        | Inl e \<Rightarrow> submitGuess pm session guess = (Inl e, session))"
    using assms by (simp add: submitGuess_def Let_def split: sum.splits)
  have tot: "\<forall>pd. pm = newPuzzleManager pd \<and> sameDimension pm ?played \<longrightarrow>
       (\<exists>h. findHint pm guess ?played = Inr h)"
    using findHint_returns by blast
  from win lose go tot show ?thesis unfolding Let_def by blast
qed

theorem submitGuess_active_witness:
  "solved toySession \<noteq> Some True \<and>
   submitGuess toyManager toySession ''dog'' =
     (Inr \<lparr> correct = Some False, isGameOver = False, message = None, hint = Some ''kitten'',
            guessesRemaining = Some 9 \<rparr>,
      toyGame\<lparr>usedHints := [''kitten'']\<rparr>) \<and>
   submitGuess toyManager toySession ''cat'' =
     (Inr \<lparr> correct = Some True, isGameOver = True,
            message = Some ''Congratulations! You guessed the word in 1 tries!'',
            hint = None, guessesRemaining = None \<rparr>,
      toySession\<lparr>guessesHistory := [''cat''], solved := Some True\<rparr>)"
proof -
  have a: "solved toySession \<noteq> Some True" by (simp add: toySession_def)
  have p: "toySession\<lparr>guessesHistory := guessesHistory toySession @ [''dog'']\<rparr> = toyGame"
    by (simp add: toyGame_def toySession_def)
  have d: "showNat (Suc 0) = ''1''" by (simp add: digit_def)
  show ?thesis
    using submitGuess_active [OF a, of "''dog''" toyManager]
      submitGuess_active [OF a, of "''cat''" toyManager] a
    unfolding Let_def p
    by (simp add: toy_find d) (simp add: toyGame_def toySession_def digit_def)
qed

section \<open>The rotation\<close>













end
